theory Spec2Isabelle
  imports Main "HOL-Library.Sublist"
begin

section \<open>The @mst markup engine of \<^verbatim>\<open>src/tools/mst.ts\<close>\<close>

text \<open>
  File contents are JavaScript strings. They are modelled as \<^typ>\<open>string\<close>: a list of
  code units, each below 256. The line feed is \<open>NL\<close>.
\<close>

abbreviation NL :: char where
  "NL \<equiv> CHR 0x0A"

subsection \<open>Directive vocabulary\<close>

text \<open>The string enum \<^verbatim>\<open>CommentType\<close>: a tag, and the text it stands for.\<close>

datatype CommentType =
    REMOVE_FILE
  | REMOVE_CURRENT_LINE
  | REMOVE_NEXT_LINE
  | REMOVE_BLOCK_START
  | REMOVE_BLOCK_END
  | OBSERVER_BLOCK_START
  | OBSERVER_BLOCK_END

fun marker :: "CommentType \<Rightarrow> string" where
  "marker REMOVE_FILE = ''@mst remove-file''"
| "marker REMOVE_CURRENT_LINE = ''@mst remove-current-line''"
| "marker REMOVE_NEXT_LINE = ''@mst remove-next-line''"
| "marker REMOVE_BLOCK_START = ''@mst remove-block-start''"
| "marker REMOVE_BLOCK_END = ''@mst remove-block-end''"
| "marker OBSERVER_BLOCK_START = ''@mst observer-block-start''"
| "marker OBSERVER_BLOCK_END = ''@mst observer-block-end''"

subsection \<open>String and array primitives of the language\<close>

text \<open>\<^verbatim>\<open>contents.split("\n")\<close>: never empty, the empty string splits into one empty line.\<close>

fun split_lines :: "string \<Rightarrow> string list" where
  "split_lines [] = [[]]"
| "split_lines (c # cs) =
     (if c = NL then [] # split_lines cs
      else (case split_lines cs of
              [] \<Rightarrow> [[c]]
            | l # ls \<Rightarrow> (c # l) # ls))"

text \<open>\<^verbatim>\<open>lines.join("\n")\<close>: the empty array joins to the empty string.\<close>

fun join_lines :: "string list \<Rightarrow> string" where
  "join_lines [] = []"
| "join_lines [l] = l"
| "join_lines (l # m # ls) = l @ NL # join_lines (m # ls)"

text \<open>\<^verbatim>\<open>line.includes(comment)\<close>: the substring test.\<close>

fun str_includes :: "string \<Rightarrow> string \<Rightarrow> bool" where
  "str_includes [] c = (c = [])"
| "str_includes (x # xs) c = (prefix c (x # xs) \<or> str_includes xs c)"

text \<open>
  \<^verbatim>\<open>lines[i]\<close> for an integer index: \<open>undefined\<close> (here \<open>None\<close>) outside the array.
\<close>

definition at_index :: "'a list \<Rightarrow> int \<Rightarrow> 'a option" where
  "at_index xs i = (if 0 \<le> i \<and> i < int (length xs) then Some (xs ! nat i) else None)"

text \<open>
  \<^verbatim>\<open>lines.filter((line, index) => keep(line, index))\<close>: the callback sees the element and
  its index.
\<close>

definition filter_indexed :: "('a \<Rightarrow> nat \<Rightarrow> bool) \<Rightarrow> 'a list \<Rightarrow> 'a list" where
  "filter_indexed keep xs =
     map snd (filter (\<lambda>(index, x). keep x index) (zip [0..<length xs] xs))"

text \<open>\<^verbatim>\<open>l.findIndex((line) => line.includes(c))\<close>: the first index, or \<open>-1\<close>.\<close>

fun findIndex :: "string list \<Rightarrow> string \<Rightarrow> int" where
  "findIndex [] c = -1"
| "findIndex (line # l) c =
     (if str_includes line c then 0
      else (let i = findIndex l c in if i = -1 then -1 else i + 1))"

text \<open>
  \<^verbatim>\<open>lines.splice(start, deleteCount)\<close>, the array it leaves behind. As the language
  defines it, a negative start counts from the end, and the delete count is clamped
  between 0 and what is left after the start: a count of zero or less deletes nothing.
\<close>

definition splice_lines :: "'a list \<Rightarrow> int \<Rightarrow> int \<Rightarrow> 'a list" where
  "splice_lines xs start deleteCount =
     (let len = int (length xs);
          actualStart = (if start < 0 then max (len + start) 0 else min start len);
          actualDeleteCount = min (max deleteCount 0) (len - actualStart)
      in take (nat actualStart) xs @ drop (nat (actualStart + actualDeleteCount)) xs)"

subsection \<open>Line and block rewriters\<close>

definition removeCurrentLine :: "string \<Rightarrow> string \<Rightarrow> string" where
  "removeCurrentLine contents comment =
     (let lines = split_lines contents;
          result = filter (\<lambda>line. \<not> str_includes line comment) lines
      in join_lines result)"

definition removeNextLine :: "string \<Rightarrow> string \<Rightarrow> string" where
  "removeNextLine contents comment =
     (let lines = split_lines contents;
          result = filter_indexed (\<lambda>line index.
            let prevLine = at_index lines (int index - 1);
                preserveCurrent = (str_includes line comment = False);
                preservePrevious =
                  (prevLine \<noteq> None \<and> str_includes (the prevLine) comment = False)
            in if index = 0 then preserveCurrent
               else preserveCurrent \<and> preservePrevious) lines
      in join_lines result)"

text \<open>The pair of markers \<^verbatim>\<open>{ start, end }\<close> that delimits a block.\<close>

record block_comment =
  start :: string
  finish :: string

abbreviation NOT_FOUND :: int where
  "NOT_FOUND \<equiv> -1"

text \<open>
  \<^verbatim>\<open>removeBlock\<close> calls itself while a start and an end marker are both present. The
  recursion is not bounded by the source, so the model is a partial function: \<open>None\<close>
  stands for a call that never returns (in the runtime: the call stack overflows).
\<close>

partial_function (option) removeBlock :: "string \<Rightarrow> block_comment \<Rightarrow> string option" where
  "removeBlock contents comment =
     (let lines = split_lines contents;
          blockStartIndex = findIndex lines (start comment);
          blockEndIndex = findIndex lines (finish comment);
          blockExists =
            (findIndex lines (start comment) \<noteq> NOT_FOUND \<and> blockEndIndex \<noteq> NOT_FOUND);
          lines' = (if blockExists
                    then splice_lines lines blockStartIndex
                           (blockEndIndex - blockStartIndex + 1)
                    else lines);
          updateContents = join_lines lines';
          anotherBlockExists =
            (findIndex lines' (start comment) \<noteq> NOT_FOUND
             \<and> findIndex lines' (finish comment) \<noteq> NOT_FOUND)
      in if anotherBlockExists then removeBlock updateContents comment
         else Some updateContents)"

text \<open>The default arguments of the three rewriters.\<close>

definition default_block_comment :: block_comment where
  "default_block_comment =
     \<lparr>start = marker REMOVE_BLOCK_START, finish = marker REMOVE_BLOCK_END\<rparr>"

subsection \<open>Regular expressions of the language, as a backtracking matcher\<close>

text \<open>
  The patterns of the source use literals, character classes, greedy \<open>*\<close>, \<open>+\<close> and
  \<open>?\<close>, alternation and capturing groups. \<open>Chars p\<close> matches one code unit that
  satisfies \<open>p\<close>.
\<close>

datatype regex =
    Chars "char \<Rightarrow> bool"
  | Eps
  | Seq regex regex
  | Alt regex regex
  | Star regex
  | Group nat regex

type_synonym captures = "nat \<rightharpoonup> string"

fun Lit :: "string \<Rightarrow> regex" where
  "Lit [] = Eps"
| "Lit (x # xs) = Seq (Chars (\<lambda>c. c = x)) (Lit xs)"

definition Opt :: "regex \<Rightarrow> regex" where
  "Opt r = Alt r Eps"

definition Plus :: "regex \<Rightarrow> regex" where
  "Plus r = Seq r (Star r)"

fun seqs :: "regex list \<Rightarrow> regex" where
  "seqs [] = Eps"
| "seqs [r] = r"
| "seqs (r # rs) = Seq r (seqs rs)"

fun alts :: "regex list \<Rightarrow> regex" where
  "alts [] = Eps"
| "alts [r] = r"
| "alts (r # rs) = Alt r (alts rs)"

text \<open>\<^verbatim>\<open>\s\<close>, \<^verbatim>\<open>\w\<close> and \<^verbatim>\<open>.\<close> on code units below 256; \<^verbatim>\<open>.\<close> excludes the line terminators.\<close>

definition white_space :: "char \<Rightarrow> bool" where
  "white_space c \<longleftrightarrow>
     c \<in> set [CHR 0x09, NL, CHR 0x0B, CHR 0x0C, CHR 0x0D, CHR '' '', CHR 0xA0]"

definition word_char :: "char \<Rightarrow> bool" where
  "word_char c \<longleftrightarrow>
     c \<in> set ''ABCDEFGHIJKLMNOPQRSTUVWXYZabcdefghijklmnopqrstuvwxyz0123456789_''"

definition any_char :: "char \<Rightarrow> bool" where
  "any_char c \<longleftrightarrow> c \<noteq> NL \<and> c \<noteq> CHR 0x0D"

text \<open>
  \<open>run r (s, c)\<close> lists, in the order a backtracking matcher tries them, every way \<open>r\<close>
  can match at the front of \<open>s\<close>: what is left of \<open>s\<close>, and the captures. The first entry
  is the match the language reports. Greedy repetition tries one more round before it
  stops, and gives up a round that consumed nothing.
\<close>

fun run :: "regex \<Rightarrow> string \<times> captures \<Rightarrow> (string \<times> captures) list" where
  "run (Chars p) (s, c) = (case s of [] \<Rightarrow> [] | x # xs \<Rightarrow> if p x then [(xs, c)] else [])"
| "run Eps st = [st]"
| "run (Seq r1 r2) st = concat (map (run r2) (run r1 st))"
| "run (Alt r1 r2) st = run r1 st @ run r2 st"
| "run (Star r) (s, c) =
     concat (map (\<lambda>(s', c'). if length s' < length s then run (Star r) (s', c') else [])
                 (run r (s, c))) @ [(s, c)]"
| "run (Group n r) (s, c) =
     map (\<lambda>(s', c'). (s', c'(n \<mapsto> take (length s - length s') s))) (run r (s, c))"

text \<open>The equation for repetition unfolds itself; it is applied by hand.\<close>

lemmas run_Star = run.simps(5)

declare run.simps(5) [simp del]

definition match_here :: "regex \<Rightarrow> string \<Rightarrow> (string \<times> captures) option" where
  "match_here r s = (case run r (s, Map.empty) of [] \<Rightarrow> None | st # _ \<Rightarrow> Some st)"

text \<open>\<^verbatim>\<open>value.match(regex)\<close> with the \<open>g\<close> flag is not \<open>null\<close>: a match starts somewhere.\<close>

fun has_match :: "regex \<Rightarrow> string \<Rightarrow> bool" where
  "has_match r [] = (match_here r [] \<noteq> None)"
| "has_match r (x # xs) = (match_here r (x # xs) \<noteq> None \<or> has_match r xs)"

text \<open>
  \<^verbatim>\<open>contents.replace(regex, replacement)\<close> with the \<open>g\<close> flag: leftmost matches, left to
  right, none overlapping; after an empty match the search moves on by one code unit.
\<close>

function replace_all :: "regex \<Rightarrow> (captures \<Rightarrow> string) \<Rightarrow> string \<Rightarrow> string" where
  "replace_all r rep s =
     (case match_here r s of
        None \<Rightarrow> (case s of [] \<Rightarrow> [] | x # xs \<Rightarrow> x # replace_all r rep xs)
      | Some (s', c) \<Rightarrow>
          if length s' < length s then rep c @ replace_all r rep s'
          else rep c @ (case s of [] \<Rightarrow> [] | x # xs \<Rightarrow> x # replace_all r rep xs))"
  by pat_completeness auto
termination
  by (relation "measure (\<lambda>(r, rep, s). length s)") auto

declare replace_all.simps [simp del]

text \<open>A reference \<^verbatim>\<open>$n\<close> in a replacement: empty when the group took no part.\<close>

definition capture :: "captures \<Rightarrow> nat \<Rightarrow> string" where
  "capture c n = (case c n of None \<Rightarrow> [] | Some v \<Rightarrow> v)"

subsection \<open>The sanitizer\<close>

text \<open>\<^verbatim>\<open>/(\/\/|#)\s*@mst.*|{?\/.*@mst.*\/}?/gm\<close>\<close>

definition mstMarkupRegex :: regex where
  "mstMarkupRegex =
     Alt (seqs [Group 1 (Alt (Lit ''//'') (Lit ''#'')), Star (Chars white_space),
                Lit ''@mst'', Star (Chars any_char)])
         (seqs [Opt (Lit ''{''), Lit ''/'', Star (Chars any_char), Lit ''@mst'',
                Star (Chars any_char), Lit ''/'', Opt (Lit ''}'')])"

definition sanitize :: "string \<Rightarrow> string" where
  "sanitize contents = (let result = replace_all mstMarkupRegex (\<lambda>_. []) contents in result)"

subsection \<open>The observer-block rewrite\<close>

definition startBlockRegex :: regex where
  "startBlockRegex =
     seqs [Lit ''//'', Star (Chars white_space), Lit (marker OBSERVER_BLOCK_START),
           Chars (\<lambda>c. c = NL),
           Opt (Group 1 (Seq (Lit ''export'') (Plus (Chars white_space)))),
           Lit ''const'', Plus (Chars white_space),
           Group 2 (Plus (Chars word_char)),
           Opt (Group 3 (seqs [Lit '':'', Star (Chars white_space),
                  Plus (Chars (\<lambda>c. word_char c \<or> c \<in> set ''<>,'' \<or> white_space c))])),
           Star (Chars white_space), Lit ''='', Star (Chars white_space),
           Lit ''observer(function'', Plus (Chars white_space),
           Group 4 (Plus (Chars word_char)),
           Group 5 (seqs [Lit ''('', Star (Chars (\<lambda>c. c \<noteq> CHR '')'')), Lit '')''])]"

text \<open>\<^verbatim>\<open>"$1const $2$3 = $5 =>"\<close>\<close>

definition startBlockReplacement :: "captures \<Rightarrow> string" where
  "startBlockReplacement c =
     capture c 1 @ ''const '' @ capture c 2 @ capture c 3 @ '' = '' @ capture c 5 @ '' =>''"

definition endBlockRegex :: regex where
  "endBlockRegex =
     seqs [Lit ''})'', Star (Chars white_space), Lit ''//'', Star (Chars white_space),
           Lit (marker OBSERVER_BLOCK_END)]"

definition endBlockReplacement :: "captures \<Rightarrow> string" where
  "endBlockReplacement c = ''}''"

definition hasObserverBlock :: "string \<Rightarrow> bool" where
  "hasObserverBlock v \<longleftrightarrow> has_match startBlockRegex v \<and> has_match endBlockRegex v"

text \<open>As \<^verbatim>\<open>removeBlock\<close>, the rewrite calls itself while both patterns still match.\<close>

partial_function (option) patchMSTObserverBlock :: "string \<Rightarrow> string option" where
  "patchMSTObserverBlock contents =
     (if \<not> hasObserverBlock contents then Some contents
      else (let updateContents = replace_all startBlockRegex startBlockReplacement contents;
                updateContents' = replace_all endBlockRegex endBlockReplacement updateContents
            in if hasObserverBlock updateContents'
               then patchMSTObserverBlock updateContents'
               else Some updateContents'))"

declare removeBlock.simps [code]
declare patchMSTObserverBlock.simps [code]

text \<open>\<^verbatim>\<open>remove\<close>: all remove operations, then the observer-block rewrite.\<close>

definition remove :: "string \<Rightarrow> string option" where
  "remove contents =
     Option.bind
       (removeBlock
          (removeNextLine (removeCurrentLine contents (marker REMOVE_CURRENT_LINE))
             (marker REMOVE_NEXT_LINE))
          default_block_comment)
       patchMSTObserverBlock"


subsection \<open>The batch update\<close>

text \<open>
  A task of \<^verbatim>\<open>Promise.allSettled\<close> ends fulfilled with its value or rejected; the tasks
  are run one after the other here, each on the state the one before left.
\<close>

datatype 'a settled = Fulfilled 'a | Rejected

fun allSettled ::
  "(string \<Rightarrow> 's \<Rightarrow> 'a settled \<times> 's) \<Rightarrow> string list \<Rightarrow> 's \<Rightarrow> 'a settled list \<times> 's" where
  "allSettled task [] s = ([], s)"
| "allSettled task (p # ps) s =
     (case task p s of (r, s') \<Rightarrow>
        (case allSettled task ps s' of (rs, s'') \<Rightarrow> (r # rs, s'')))"

text \<open>
  The functions of the toolbox that \<^verbatim>\<open>update\<close> calls are not part of the repository:
  they are the fields of the parameter \<open>tb\<close>. They act on a state \<open>'w\<close>, which holds the
  files and whatever else is kept between two calls. In particular
  \<^verbatim>\<open>patching.exists(path, pattern)\<close> is handed either a string or a regular expression
  object, and for \<^verbatim>\<open>mstMarkupRegex\<close> that is the one shared object with the flag \<^verbatim>\<open>g\<close>,
  whose \<^verbatim>\<open>lastIndex\<close> a test reads and writes: the answer for one file may depend on
  the tests made on the files before, so \<open>patching_exists\<close> takes the state and returns
  it. \<^verbatim>\<open>filesystem.read\<close> gives no contents for a missing file. \<^verbatim>\<open>patching.update\<close>
  is given the callback as a function that may not return, and answers whether its
  promise is fulfilled.
\<close>

datatype pattern = Text string | RegExp regex

record 'w toolbox =
  patching_exists :: "string \<Rightarrow> pattern \<Rightarrow> 'w \<Rightarrow> bool \<times> 'w"
  patching_update :: "string \<Rightarrow> (string \<Rightarrow> string option) \<Rightarrow> 'w \<Rightarrow> bool \<times> 'w"
  filesystem_read :: "string \<Rightarrow> 'w \<Rightarrow> string option"
  filesystem_write :: "string \<Rightarrow> string \<Rightarrow> 'w \<Rightarrow> 'w"
  filesystem_remove :: "string \<Rightarrow> 'w \<Rightarrow> 'w"

text \<open>The argument object of \<^verbatim>\<open>updateFiles\<close>.\<close>

record comment_types =
  ct_REMOVE_CURRENT_LINE :: string
  ct_REMOVE_NEXT_LINE :: string
  ct_REMOVE_BLOCK_START :: string
  ct_REMOVE_BLOCK_END :: string
  ct_REMOVE_FILE :: string

record update_files_args =
  filePaths :: "string list"
  markupRegex :: regex
  commentTypes :: comment_types
  dryRun :: bool
  onlyMarkup :: bool

text \<open>
  The statements inside \<^verbatim>\<open>filePaths.map(async (path) => ...)\<close> of \<^verbatim>\<open>update\<close>, which
  stand after its \<^verbatim>\<open>return\<close>. \<^verbatim>\<open>RegExp(operations.join("|"), "g")\<close> is the alternation
  of the markers, which hold no special character. \<^verbatim>\<open>mst.sanitize\<close> and
  \<^verbatim>\<open>before.includes\<close> throw on the contents of a missing file, which rejects the task.
\<close>

definition operations :: "CommentType list" where
  "operations =
     [REMOVE_CURRENT_LINE, REMOVE_NEXT_LINE, REMOVE_BLOCK_START, REMOVE_BLOCK_END,
      OBSERVER_BLOCK_START, OBSERVER_BLOCK_END]"

definition per_path ::
  "'w toolbox \<Rightarrow> bool \<Rightarrow> bool \<Rightarrow> string \<Rightarrow> 'w
     \<Rightarrow> (string \<times> CommentType list) settled \<times> 'w" where
  "per_path tb dry only_markup path w =
     (case patching_exists tb path (Text (marker REMOVE_FILE)) w of
        (file_marked, w1) \<Rightarrow>
          if file_marked
          then (if \<not> dry
                then (if only_markup
                      then (case filesystem_read tb path w1 of
                              None \<Rightarrow> (Rejected, w1)
                            | Some contents \<Rightarrow>
                                (Fulfilled (path, [REMOVE_FILE]),
                                 filesystem_write tb path (sanitize contents) w1))
                      else (Fulfilled (path, [REMOVE_FILE]), filesystem_remove tb path w1))
                else (Fulfilled (path, [REMOVE_FILE]), w1))
          else
            (let shouldUpdate =
                   (if only_markup then RegExp mstMarkupRegex
                    else RegExp (alts (map (\<lambda>operation. Lit (marker operation)) operations)))
             in case patching_exists tb path shouldUpdate w1 of
                  (found, w2) \<Rightarrow>
                    if found
                    then (case filesystem_read tb path w2 of
                            None \<Rightarrow> (Rejected, w2)
                          | Some before \<Rightarrow>
                              (let comments =
                                     filter (\<lambda>operation. str_includes before (marker operation))
                                       operations
                               in if \<not> dry
                                  then (case patching_update tb path
                                               (if only_markup
                                                then (\<lambda>contents. Some (sanitize contents))
                                                else remove) w2 of
                                          (fulfilled, w3) \<Rightarrow>
                                            (if fulfilled then Fulfilled (path, comments)
                                             else Rejected, w3))
                                  else (Fulfilled (path, comments), w2)))
                    else (Fulfilled (path, []), w2)))"

text \<open>
  A statement of a function body either returns a value from the function or completes
  normally; what follows a statement that returned is not run.
\<close>

datatype 'v completion = Returned 'v | Normal

definition then_stmt ::
  "('s \<Rightarrow> 'v completion \<times> 's) \<Rightarrow> ('s \<Rightarrow> 'v completion \<times> 's) \<Rightarrow> 's \<Rightarrow> 'v completion \<times> 's" where
  "then_stmt first second s =
     (case first s of
        (Returned v, s') \<Rightarrow> (Returned v, s')
      | (Normal, s') \<Rightarrow> second s')"

text \<open>
  \<^verbatim>\<open>update\<close>. The function \<^verbatim>\<open>updateFiles\<close> it imports from \<^verbatim>\<open>./markup\<close> is the
  parameter \<open>uf\<close>. The body is the two statements of the source: the \<^verbatim>\<open>return\<close> of
  the call of \<^verbatim>\<open>updateFiles\<close>, then the per-file loop and the \<^verbatim>\<open>return\<close> of its results.
\<close>

definition update ::
  "'w toolbox \<Rightarrow> (update_files_args \<Rightarrow> 'w \<Rightarrow> 'r \<times> 'w)
     \<Rightarrow> string list \<Rightarrow> bool \<Rightarrow> bool \<Rightarrow> 'w
     \<Rightarrow> ('r + (string \<times> CommentType list) settled list) completion \<times> 'w" where
  "update tb uf paths dry only_markup =
     then_stmt
       (\<lambda>w. case uf \<lparr>filePaths = paths,
                      markupRegex = mstMarkupRegex,
                      commentTypes =
                        \<lparr>ct_REMOVE_CURRENT_LINE = marker REMOVE_CURRENT_LINE,
                         ct_REMOVE_NEXT_LINE = marker REMOVE_NEXT_LINE,
                         ct_REMOVE_BLOCK_START = marker REMOVE_BLOCK_START,
                         ct_REMOVE_BLOCK_END = marker REMOVE_BLOCK_END,
                         ct_REMOVE_FILE = marker REMOVE_FILE\<rparr>,
                      dryRun = dry,
                      onlyMarkup = only_markup\<rparr> w of
               (r, w') \<Rightarrow> (Returned (Inl r), w'))
       (\<lambda>w. case allSettled (per_path tb dry only_markup) paths w of
               (mstCommentResults, w') \<Rightarrow> (Returned (Inr mstCommentResults), w'))"

text \<open>
  Modelled from the spec: \<^verbatim>\<open>updateFiles\<close> of \<^verbatim>\<open>src/tools/markup.ts\<close>, which is not among
  the sources. After sections 4.7 and 4.9 of the specification: each file is handled on
  its own; a file that cannot be read is reported as failed; a file with the remove-file
  marker is deleted (remove mode) or has its markers stripped (sanitize mode) and no
  other rewriter runs on it; any other file gets, in this order, remove-current-line,
  remove-next-line, remove-block and the observer-block rewrite (remove mode) or the
  sanitizer (sanitize mode); a dry run changes no file; the report lists, per file, the
  directive kinds found. Here the state is the file system alone, a map from paths to
  contents.
\<close>

type_synonym file_system = "string \<rightharpoonup> string"

definition updateFile ::
  "update_files_args \<Rightarrow> string \<Rightarrow> file_system
     \<Rightarrow> (string \<times> string list) settled \<times> file_system" where
  "updateFile args path fs =
     (case fs path of
        None \<Rightarrow> (Rejected, fs)
      | Some contents \<Rightarrow>
          (let ct = commentTypes args;
               strip = replace_all (markupRegex args) (\<lambda>_. [])
           in if str_includes contents (ct_REMOVE_FILE ct)
              then (Fulfilled (path, [ct_REMOVE_FILE ct]),
                    if dryRun args then fs
                    else if onlyMarkup args then fs(path \<mapsto> strip contents)
                    else fs(path := None))
              else
                (let found = filter (str_includes contents)
                               [ct_REMOVE_CURRENT_LINE ct, ct_REMOVE_NEXT_LINE ct,
                                ct_REMOVE_BLOCK_START ct, ct_REMOVE_BLOCK_END ct]
                 in if dryRun args then (Fulfilled (path, found), fs)
                    else if onlyMarkup args
                    then (Fulfilled (path, found), fs(path \<mapsto> strip contents))
                    else (case Option.bind
                                 (removeBlock
                                    (removeNextLine
                                       (removeCurrentLine contents (ct_REMOVE_CURRENT_LINE ct))
                                       (ct_REMOVE_NEXT_LINE ct))
                                    \<lparr>start = ct_REMOVE_BLOCK_START ct,
                                     finish = ct_REMOVE_BLOCK_END ct\<rparr>)
                                 patchMSTObserverBlock of
                            None \<Rightarrow> (Rejected, fs)
                          | Some result \<Rightarrow> (Fulfilled (path, found), fs(path \<mapsto> result))))))"

text \<open>
  Modelled from the spec: the batch of section 4.9, every file of the list handled by
  \<open>updateFile\<close> and the results collected once all have settled.
\<close>

definition updateFiles ::
  "update_files_args \<Rightarrow> file_system \<Rightarrow> (string \<times> string list) settled list \<times> file_system" where
  "updateFiles args fs = allSettled (updateFile args) (filePaths args) fs"

subsection \<open>Contents laid out as a sequence of blocks\<close>

text \<open>
  Used to state the claims about \<^verbatim>\<open>removeBlock\<close>, not part of the source. A block is
  the lines before it, its start line, the lines inside, and its end line; \<open>with_blocks\<close>
  lays blocks out one after the other, followed by the last lines, and \<open>outside_blocks\<close>
  keeps only the lines outside. A line is \<open>plain\<close> when it holds neither marker.
\<close>

type_synonym block = "string list \<times> string \<times> string list \<times> string"

fun with_blocks :: "block list \<Rightarrow> string list \<Rightarrow> string list" where
  "with_blocks [] post = post"
| "with_blocks ((pre, s, body, e) # bs) post = pre @ s # body @ e # with_blocks bs post"

fun outside_blocks :: "block list \<Rightarrow> string list \<Rightarrow> string list" where
  "outside_blocks [] post = post"
| "outside_blocks ((pre, s, body, e) # bs) post = pre @ outside_blocks bs post"

definition plain :: "block_comment \<Rightarrow> string \<Rightarrow> bool" where
  "plain cm l \<longleftrightarrow> \<not> str_includes l (start cm) \<and> \<not> str_includes l (finish cm)"

fun sequential_block :: "block_comment \<Rightarrow> block \<Rightarrow> bool" where
  "sequential_block cm (pre, s, body, e) \<longleftrightarrow>
     list_all (plain cm) pre
     \<and> str_includes s (start cm) \<and> \<not> str_includes s (finish cm)
     \<and> list_all (plain cm) body
     \<and> str_includes e (finish cm)"

definition no_line_feed :: "string list \<Rightarrow> bool" where
  "no_line_feed ls \<longleftrightarrow> list_all (\<lambda>l. NL \<notin> set l) ls"

subsection \<open>What a pattern matches, and what deleting matches means\<close>

text \<open>
  Used to state the claims about \<^verbatim>\<open>sanitize\<close>, not part of the source. \<open>lang r\<close> is the set
  of strings the pattern \<open>r\<close> can match. \<open>deletes L s out\<close> holds when \<open>out\<close> is \<open>s\<close> with
  some substrings removed, one after the other and each a member of \<open>L\<close>, every other
  code unit kept in its place.
\<close>

inductive_set star_lang :: "string set \<Rightarrow> string set" for L :: "string set" where
  empty: "[] \<in> star_lang L"
| round: "u \<in> L \<Longrightarrow> v \<in> star_lang L \<Longrightarrow> u @ v \<in> star_lang L"

fun lang :: "regex \<Rightarrow> string set" where
  "lang (Chars p) = {[x] | x. p x}"
| "lang Eps = {[]}"
| "lang (Seq r1 r2) = {u @ v | u v. u \<in> lang r1 \<and> v \<in> lang r2}"
| "lang (Alt r1 r2) = lang r1 \<union> lang r2"
| "lang (Star r) = star_lang (lang r)"
| "lang (Group n r) = lang r"



subsection \<open>Contents made of code and line-comment directives\<close>

text \<open>
  Used to state the claims about \<^verbatim>\<open>sanitize\<close>, not part of the source. An annotated line
  is its code and, optionally, one directive written as a line comment: the opener
  \<^verbatim>\<open>//\<close> or \<^verbatim>\<open>#\<close>, blanks, \<^verbatim>\<open>@mst\<close> and the rest of the line; \<open>render\<close> writes the line
  out. The line is a \<open>line_comment_directive\<close> line when its code holds neither a line
  feed nor \<^verbatim>\<open>@mst\<close>, its blanks are white space other than line terminators, and the
  rest holds neither a line terminator nor \<^verbatim>\<open>/\<close>.
\<close>

type_synonym directive = "string \<times> string \<times> string"

type_synonym annotated_line = "string \<times> directive option"

definition inline_blank :: "char \<Rightarrow> bool" where
  "inline_blank c \<longleftrightarrow> white_space c \<and> any_char c"

fun render :: "annotated_line \<Rightarrow> string" where
  "render (code, None) = code"
| "render (code, Some (opener, blanks, rest)) = code @ opener @ blanks @ ''@mst'' @ rest"

fun line_comment_directive :: "annotated_line \<Rightarrow> bool" where
  "line_comment_directive (code, None) \<longleftrightarrow>
     NL \<notin> set code \<and> \<not> str_includes code ''@mst''"
| "line_comment_directive (code, Some (opener, blanks, rest)) \<longleftrightarrow>
     NL \<notin> set code \<and> \<not> str_includes code ''@mst''
     \<and> (opener = ''//'' \<or> opener = ''#'')
     \<and> list_all inline_blank blanks
     \<and> list_all any_char rest \<and> CHR ''/'' \<notin> set rest"

text \<open>
  The text of a directive; the lines that follow a line, with the line feed before
  them; a string that starts, after white space, with \<^verbatim>\<open>@mst\<close>.
\<close>

fun directive_text :: "directive option \<Rightarrow> string" where
  "directive_text None = []"
| "directive_text (Some (opener, blanks, rest)) = opener @ blanks @ ''@mst'' @ rest"

definition following :: "annotated_line list \<Rightarrow> string" where
  "following later = (case later of [] \<Rightarrow> [] | _ \<Rightarrow> NL # join_lines (map render later))"

definition after_blanks_mst :: "string \<Rightarrow> bool" where
  "after_blanks_mst y \<longleftrightarrow> prefix ''@mst'' (dropWhile white_space y)"

section \<open>Properties\<close>

subsection \<open>Splitting and joining lines\<close>

lemma split_lines_ne [simp]: "split_lines s \<noteq> []"
  by (induction s) (auto split: list.splits)

lemma join_split [simp]: "join_lines (split_lines s) = s"
proof (induction s)
  case Nil show ?case by simp
next
  case (Cons c cs)
  obtain l ls where sp: "split_lines cs = l # ls"
    using split_lines_ne[of cs] by (cases "split_lines cs") auto
  show ?case
  proof (cases "c = NL")
    case True
    with Cons sp show ?thesis by simp
  next
    case False
    with Cons sp show ?thesis by (cases ls) auto
  qed
qed

lemma split_no_NL: "l \<in> set (split_lines s) \<Longrightarrow> NL \<notin> set l"
proof (induction s arbitrary: l)
  case Nil then show ?case by simp
next
  case (Cons c cs)
  then show ?case by (auto split: if_splits list.splits)
qed

lemma split_lines_append_NL:
  "NL \<notin> set l \<Longrightarrow> split_lines (l @ NL # s) = l # split_lines s"
  by (induction l) auto

lemma split_lines_single: "NL \<notin> set l \<Longrightarrow> split_lines l = [l]"
  by (induction l) auto

lemma split_join:
  "ls \<noteq> [] \<Longrightarrow> \<forall>l \<in> set ls. NL \<notin> set l \<Longrightarrow> split_lines (join_lines ls) = ls"
proof (induction ls rule: join_lines.induct)
  case 1 then show ?case by simp
next
  case (2 l) then show ?case by (simp add: split_lines_single)
next
  case (3 l m ls)
  then show ?case by (simp add: split_lines_append_NL)
qed

lemma str_includes_iff: "str_includes s c \<longleftrightarrow> sublist c s"
  by (induction s) (auto simp: sublist_Cons_right)

lemma sublist_across:
  assumes "x \<notin> set c" "sublist c (a @ x # b)"
  shows "sublist c a \<or> sublist c b"
proof -
  from assms(2) obtain ps ss where e: "a @ x # b = ps @ c @ ss"
    by (auto simp: sublist_def)
  then consider (l) us where "a = ps @ us" "us @ x # b = c @ ss"
    | (r) us where "a @ us = ps" "x # b = us @ c @ ss"
    by (auto simp: append_eq_append_conv2)
  then show ?thesis
  proof cases
    case l
    from l(2) consider (l1) vs where "us = c @ vs" | (l2) vs where "us @ vs = c" "x # b = vs @ ss" "vs \<noteq> []"
      by (auto simp: append_eq_append_conv2) (metis append.right_neutral)
    then show ?thesis
    proof cases
      case l1 with l(1) show ?thesis by (auto simp: sublist_def)
    next
      case l2
      then have "x \<in> set c" by (cases vs) auto
      with assms(1) show ?thesis by simp
    qed
  next
    case r
    show ?thesis
    proof (cases us)
      case Nil
      with r(2) have "x \<in> set c \<or> c = []" by (cases c) auto
      with assms(1) have "c = []" by simp
      then show ?thesis by simp
    next
      case (Cons u us')
      with r(2) have "b = us' @ c @ ss" by simp
      then show ?thesis by (auto simp: sublist_def)
    qed
  qed
qed

lemma includes_join:
  assumes "c \<noteq> []" "NL \<notin> set c"
  shows "str_includes (join_lines ls) c \<Longrightarrow> \<exists>l \<in> set ls. str_includes l c"
proof (induction ls rule: join_lines.induct)
  case 1 with assms show ?case by simp
next
  case (2 l) then show ?case by simp
next
  case (3 l m ls)
  then have "sublist c (l @ NL # join_lines (m # ls))" by (simp add: str_includes_iff)
  from sublist_across[OF assms(2) this] 3 show ?case
    by (auto simp: str_includes_iff)
qed

subsection \<open>Remove-current-line and remove-next-line\<close>

lemma filter_indexed_nth:
  "filter_indexed keep xs = map (\<lambda>i. xs ! i) (filter (\<lambda>i. keep (xs ! i) i) [0..<length xs])"
proof -
  have z: "zip [0..<length xs] xs = map (\<lambda>i. (i, xs ! i)) [0..<length xs]"
    by (rule nth_equalityI) auto
  show ?thesis
    unfolding filter_indexed_def z by (simp add: filter_map comp_def)
qed

text \<open>
  Claim C7. \<^verbatim>\<open>removeCurrentLine\<close> is a stable filter: the output is the join, with the
  line feed, of exactly the input lines that do not contain the
  \<^verbatim>\<open>@mst remove-current-line\<close> marker, in their original order, and the output string
  never contains the marker.
\<close>

theorem removeCurrentLine_stable_filter:
  "removeCurrentLine contents (marker REMOVE_CURRENT_LINE) =
     join_lines (filter (\<lambda>line. \<not> str_includes line (marker REMOVE_CURRENT_LINE))
                        (split_lines contents))
   \<and> subseq (filter (\<lambda>line. \<not> str_includes line (marker REMOVE_CURRENT_LINE))
                     (split_lines contents))
             (split_lines contents)
   \<and> \<not> str_includes (removeCurrentLine contents (marker REMOVE_CURRENT_LINE))
                      (marker REMOVE_CURRENT_LINE)"
proof -
  let ?m = "marker REMOVE_CURRENT_LINE"
  let ?kept = "filter (\<lambda>line. \<not> str_includes line ?m) (split_lines contents)"
  have eq: "removeCurrentLine contents ?m = join_lines ?kept"
    by (simp add: removeCurrentLine_def)
  have m: "?m \<noteq> []" "NL \<notin> set ?m" by simp_all
  have "\<not> str_includes (join_lines ?kept) ?m"
    using includes_join[OF m, of ?kept] by auto
  with eq show ?thesis by simp
qed

theorem removeCurrentLine_stable_filter_witness:
  "removeCurrentLine (join_lines [''a'', ''b // @mst remove-current-line'', ''c''])
       (marker REMOVE_CURRENT_LINE) = join_lines [''a'', ''c'']"
  using removeCurrentLine_stable_filter
    [of "join_lines [''a'', ''b // @mst remove-current-line'', ''c'']"]
  by simp

lemma removeNextLine_char:
  "removeNextLine contents comment =
     join_lines (map (\<lambda>i. split_lines contents ! i)
           (filter (\<lambda>i. \<not> str_includes (split_lines contents ! i) comment
                         \<and> (i = 0 \<or> \<not> str_includes (split_lines contents ! (i - 1)) comment))
                   [0..<length (split_lines contents)]))"
proof -
  let ?ls = "split_lines contents"
  let ?keep = "\<lambda>line index.
      let prevLine = at_index ?ls (int index - 1);
          preserveCurrent = (str_includes line comment = False);
          preservePrevious = (prevLine \<noteq> None \<and> str_includes (the prevLine) comment = False)
      in if index = 0 then preserveCurrent else preserveCurrent \<and> preservePrevious"
  have k: "?keep (?ls ! i) i
      = (\<not> str_includes (?ls ! i) comment \<and> (i = 0 \<or> \<not> str_includes (?ls ! (i - 1)) comment))"
    if "i \<in> set [0..<length ?ls]" for i
  proof (cases "i = 0")
    case True then show ?thesis by (simp add: Let_def)
  next
    case False
    with that show ?thesis by (simp add: at_index_def Let_def nat_diff_distrib')
  qed
  have f: "filter (\<lambda>i. ?keep (?ls ! i) i) [0..<length ?ls]
      = filter (\<lambda>i. \<not> str_includes (?ls ! i) comment
                    \<and> (i = 0 \<or> \<not> str_includes (?ls ! (i - 1)) comment)) [0..<length ?ls]"
    by (rule filter_cong[OF refl]) (rule k)
  have "removeNextLine contents comment
      = join_lines (map (\<lambda>i. ?ls ! i) (filter (\<lambda>i. ?keep (?ls ! i) i) [0..<length ?ls]))"
    by (simp only: removeNextLine_def filter_indexed_nth Let_def)
  with f show ?thesis by (simp only:)
qed

text \<open>
  Claim C5. \<^verbatim>\<open>removeNextLine\<close> keeps the line at index \<open>i\<close> if and only if it does not
  contain the marker and, when \<open>i\<close> is not the first index, the line before it does not
  contain it either; the three lines \<^verbatim>\<open>a // @mst remove-next-line\<close>, \<^verbatim>\<open>b\<close>, \<^verbatim>\<open>c\<close> become the
  single line \<^verbatim>\<open>c\<close>.
\<close>

theorem removeNextLine_keeps:
  "removeNextLine contents comment =
     (let lines = split_lines contents
      in join_lines (map (\<lambda>i. lines ! i)
           (filter (\<lambda>i. \<not> str_includes (lines ! i) comment
                         \<and> (i = 0 \<or> \<not> str_includes (lines ! (i - 1)) comment))
                   [0..<length lines])))
   \<and> removeNextLine (join_lines [''a // @mst remove-next-line'', ''b'', ''c''])
        (marker REMOVE_NEXT_LINE) = join_lines [''c'']"
proof -
  have 2: "removeNextLine (join_lines [''a // @mst remove-next-line'', ''b'', ''c''])
        (marker REMOVE_NEXT_LINE) = join_lines [''c'']"
    by code_simp
  show ?thesis
    unfolding Let_def using removeNextLine_char[of contents comment] 2 by (simp only: simp_thms)
qed

theorem removeNextLine_keeps_witness:
  "removeNextLine (join_lines [''x'', ''y // @mst remove-next-line'', ''// @mst remove-next-line'', ''z'', ''w''])
        (marker REMOVE_NEXT_LINE) = join_lines [''x'', ''w'']"
proof -
  let ?X = "join_lines [''x'', ''y // @mst remove-next-line'', ''// @mst remove-next-line'', ''z'', ''w'']"
  let ?c = "marker REMOVE_NEXT_LINE"
  have "removeNextLine ?X ?c =
     (let lines = split_lines ?X
      in join_lines (map (\<lambda>i. lines ! i)
           (filter (\<lambda>i. \<not> str_includes (lines ! i) ?c
                         \<and> (i = 0 \<or> \<not> str_includes (lines ! (i - 1)) ?c))
                   [0..<length lines])))"
    using removeNextLine_keeps[of ?X ?c] by (rule conjunct1)
  also have "\<dots> = join_lines [''x'', ''w'']"
    by code_simp
  finally show ?thesis .
qed

subsection \<open>Remove-block\<close>

lemma findIndex_ge: "- 1 \<le> findIndex ls c"
  by (induction ls) (auto simp: Let_def)

lemma findIndex_none: "findIndex ls c = - 1 \<longleftrightarrow> (\<forall>l \<in> set ls. \<not> str_includes l c)"
proof (induction ls)
  case Nil show ?case by simp
next
  case (Cons l ls)
  have "findIndex ls c + 1 \<noteq> - 1" using findIndex_ge[of ls c] by arith
  with Cons show ?case by (auto simp: Let_def)
qed

lemma findIndex_first:
  "\<forall>l \<in> set pre. \<not> str_includes l c \<Longrightarrow> str_includes s c
   \<Longrightarrow> findIndex (pre @ s # rest) c = int (length pre)"
proof (induction pre)
  case Nil then show ?case by simp
next
  case (Cons p pre)
  then show ?case by (simp add: Let_def)
qed

lemma splice_lines_range:
  "splice_lines (pre @ s # body @ e # rest) (int (length pre))
     (int (length pre) + 1 + int (length body) - int (length pre) + 1) = pre @ rest"
  by (simp add: splice_lines_def Let_def nat_add_distrib)

lemma splice_lines_nothing:
  "deleteCount \<le> 0 \<Longrightarrow> splice_lines xs from deleteCount = xs"
  by (simp add: splice_lines_def Let_def max_def min_def)

lemma removeBlock_lines:
  assumes "ls \<noteq> []" "\<forall>l \<in> set ls. NL \<notin> set l"
  shows "removeBlock (join_lines ls) cm =
     (let ls' = (if findIndex ls (start cm) \<noteq> - 1 \<and> findIndex ls (finish cm) \<noteq> - 1
                 then splice_lines ls (findIndex ls (start cm))
                        (findIndex ls (finish cm) - findIndex ls (start cm) + 1)
                 else ls)
      in if findIndex ls' (start cm) \<noteq> - 1 \<and> findIndex ls' (finish cm) \<noteq> - 1
         then removeBlock (join_lines ls') cm
         else Some (join_lines ls'))"
  by (subst removeBlock.simps) (simp add: split_join[OF assms] Let_def)

lemma removeBlock_no_pair:
  assumes "\<not> (findIndex (split_lines c) (start cm) \<noteq> - 1
             \<and> findIndex (split_lines c) (finish cm) \<noteq> - 1)"
  shows "removeBlock c cm = Some c"
  using assms by (subst removeBlock.simps) (auto simp: Let_def)

lemma removeBlock_diverges:
  assumes "findIndex (split_lines c) (finish cm) \<noteq> - 1"
      and "findIndex (split_lines c) (finish cm) < findIndex (split_lines c) (start cm)"
  shows "removeBlock c cm = None"
proof -
  let ?stuck = "\<lambda>(c :: string) (cm :: block_comment).
     findIndex (split_lines c) (finish cm) \<noteq> - 1
     \<and> findIndex (split_lines c) (finish cm) < findIndex (split_lines c) (start cm)"
  have "\<not> ?stuck c' cm'" if r: "removeBlock c' cm' = Some y" for c' cm' y
  proof (rule removeBlock.raw_induct[where P = "\<lambda>c cm y. \<not> ?stuck c cm", OF _ r])
    fix f :: "string \<Rightarrow> block_comment \<Rightarrow> string option" and c cm y
    assume IH: "\<And>c cm y. f c cm = Some y \<Longrightarrow> \<not> ?stuck c cm"
    let ?ls = "split_lines c"
    assume body: "(let lines = split_lines c;
          blockStartIndex = findIndex lines (start cm);
          blockEndIndex = findIndex lines (finish cm);
          blockExists =
            (findIndex lines (start cm) \<noteq> NOT_FOUND \<and> blockEndIndex \<noteq> NOT_FOUND);
          lines' = (if blockExists
                    then splice_lines lines blockStartIndex
                           (blockEndIndex - blockStartIndex + 1)
                    else lines);
          updateContents = join_lines lines';
          anotherBlockExists =
            (findIndex lines' (start cm) \<noteq> NOT_FOUND
             \<and> findIndex lines' (finish cm) \<noteq> NOT_FOUND)
      in if anotherBlockExists then f updateContents cm
         else Some updateContents) = Some y"
    show "\<not> ?stuck c cm"
    proof
      assume loop: "?stuck c cm"
      then have e: "findIndex ?ls (finish cm) \<noteq> - 1"
        and lt: "findIndex ?ls (finish cm) < findIndex ?ls (start cm)"
        by simp_all
      from lt have s: "findIndex ?ls (start cm) \<noteq> - 1"
        using findIndex_ge[of ?ls "finish cm"] by arith
      from lt have "findIndex ?ls (finish cm) - findIndex ?ls (start cm) + 1 \<le> 0" by arith
      then have sp: "splice_lines ?ls (findIndex ?ls (start cm))
                (findIndex ?ls (finish cm) - findIndex ?ls (start cm) + 1) = ?ls"
        by (rule splice_lines_nothing)
      from body e s have "f c cm = Some y"
        by (simp add: Let_def sp)
      from IH[OF this] loop show False by simp
    qed
  qed
  with assms show ?thesis by (cases "removeBlock c cm") auto
qed

lemma removeBlock_empty: "removeBlock [] cm = Some []"
  by (subst removeBlock.simps) (simp add: Let_def splice_lines_def)

lemma removeBlock_plain:
  assumes "list_all (plain cm) ls" "no_line_feed ls"
  shows "removeBlock (join_lines ls) cm = Some (join_lines ls)"
proof (cases "ls = []")
  case True then show ?thesis by (simp add: removeBlock_empty)
next
  case False
  with assms(2) have sj: "split_lines (join_lines ls) = ls"
    by (intro split_join) (auto simp: no_line_feed_def list_all_iff)
  from assms(1) have "findIndex ls (start cm) = - 1"
    by (simp add: findIndex_none plain_def list_all_iff)
  then show ?thesis
    by (intro removeBlock_no_pair) (simp add: sj)
qed

lemma with_blocks_Nil: "with_blocks bs post = [] \<longleftrightarrow> bs = [] \<and> post = []"
  by (cases bs) auto

lemma removeBlock_blocks:
  assumes "list_all (sequential_block cm) bs" "list_all (plain cm) post"
      "list_all (plain cm) acc" "no_line_feed (acc @ with_blocks bs post)"
  shows "removeBlock (join_lines (acc @ with_blocks bs post)) cm
           = Some (join_lines (acc @ outside_blocks bs post))"
  using assms
proof (induction bs arbitrary: acc)
  case Nil
  then show ?case
    using removeBlock_plain[of cm "acc @ post"] by simp
next
  case (Cons b bs)
  obtain pre s body e where b: "b = (pre, s, body, e)" by (cases b) auto
  let ?P = "acc @ pre"
  let ?rest = "with_blocks bs post"
  let ?ls = "?P @ s # body @ e # ?rest"
  from Cons.prems b have
    P: "list_all (plain cm) ?P" and s: "str_includes s (start cm)" "\<not> str_includes s (finish cm)"
    and body: "list_all (plain cm) body" and e: "str_includes e (finish cm)"
    and bs: "list_all (sequential_block cm) bs"
    by simp_all
  from Cons.prems b have nl: "no_line_feed ?ls" by simp
  then have nl': "no_line_feed (?P @ ?rest)" by (simp add: no_line_feed_def)
  have si: "findIndex ?ls (start cm) = int (length ?P)"
    using P s(1) by (intro findIndex_first) (auto simp: plain_def list_all_iff)
  have "findIndex ((?P @ s # body) @ e # ?rest) (finish cm) = int (length (?P @ s # body))"
    using P s(2) body e by (intro findIndex_first) (auto simp: plain_def list_all_iff)
  then have ei: "findIndex ?ls (finish cm) = int (length ?P) + 1 + int (length body)"
    by simp
  have sp: "splice_lines ?ls (int (length ?P))
       (int (length ?P) + 1 + int (length body) - int (length ?P) + 1) = ?P @ ?rest"
    by (rule splice_lines_range)
  have IH: "removeBlock (join_lines (?P @ ?rest)) cm = Some (join_lines (?P @ outside_blocks bs post))"
    using Cons.IH[of ?P] bs Cons.prems(2) P nl' by simp
  have ne: "?ls \<noteq> []" by simp
  have nlf: "\<forall>l \<in> set ?ls. NL \<notin> set l"
    using nl by (simp add: no_line_feed_def list_all_iff)
  have step: "removeBlock (join_lines ?ls) cm =
      (if findIndex (?P @ ?rest) (start cm) \<noteq> - 1 \<and> findIndex (?P @ ?rest) (finish cm) \<noteq> - 1
       then removeBlock (join_lines (?P @ ?rest)) cm
       else Some (join_lines (?P @ ?rest)))"
    unfolding removeBlock_lines[OF ne nlf] si ei sp Let_def by simp
  have "removeBlock (join_lines ?ls) cm = Some (join_lines (?P @ outside_blocks bs post))"
  proof (cases "findIndex (?P @ ?rest) (start cm) \<noteq> - 1 \<and> findIndex (?P @ ?rest) (finish cm) \<noteq> - 1")
    case True
    with step IH show ?thesis by simp
  next
    case False
    show ?thesis
    proof (cases "?P @ ?rest = []")
      case True
      then have "bs = []" "post = []" "?P = []" by (simp_all add: with_blocks_Nil)
      with step False show ?thesis by simp
    next
      case ne': False
      have "split_lines (join_lines (?P @ ?rest)) = ?P @ ?rest"
        using nl' ne' by (intro split_join) (auto simp: no_line_feed_def list_all_iff)
      with False have "removeBlock (join_lines (?P @ ?rest)) cm = Some (join_lines (?P @ ?rest))"
        by (intro removeBlock_no_pair) simp
      with IH step False show ?thesis by simp
    qed
  qed
  with b show ?case by simp
qed

text \<open>
  Claim C6. For contents made of any number of blocks one after the other, each a start
  line, plain lines and an end line, with plain lines around them,
  \<^verbatim>\<open>removeBlock\<close> returns exactly the lines outside the blocks; and the five lines
  \<^verbatim>\<open>x\<close>, start, \<^verbatim>\<open>y\<close>, end, \<^verbatim>\<open>z\<close> become \<^verbatim>\<open>x\<close>, \<^verbatim>\<open>z\<close>.
\<close>

theorem removeBlock_sequential_blocks:
  "(list_all (sequential_block cm) bs \<and> list_all (plain cm) post
      \<and> no_line_feed (with_blocks bs post)
    \<longrightarrow> removeBlock (join_lines (with_blocks bs post)) cm
          = Some (join_lines (outside_blocks bs post)))
   \<and> removeBlock (join_lines [''x'', ''// @mst remove-block-start'', ''y'',
                                ''// @mst remove-block-end'', ''z''])
        default_block_comment = Some (join_lines [''x'', ''z''])"
proof -
  have g: "removeBlock (join_lines (with_blocks bs post)) cm
          = Some (join_lines (outside_blocks bs post))"
    if "list_all (sequential_block cm) bs" "list_all (plain cm) post"
      "no_line_feed (with_blocks bs post)" for cm bs post
    using removeBlock_blocks[of cm bs post "[]"] that by simp
  have "removeBlock (join_lines (with_blocks
           [([''x''], ''// @mst remove-block-start'', [''y''], ''// @mst remove-block-end'')]
           [''z''])) default_block_comment
        = Some (join_lines (outside_blocks
           [([''x''], ''// @mst remove-block-start'', [''y''], ''// @mst remove-block-end'')]
           [''z'']))"
    by (rule g) (simp_all add: plain_def default_block_comment_def no_line_feed_def)
  then have "removeBlock (join_lines [''x'', ''// @mst remove-block-start'', ''y'',
                                ''// @mst remove-block-end'', ''z''])
        default_block_comment = Some (join_lines [''x'', ''z''])"
    by simp
  with g show ?thesis by blast
qed

theorem removeBlock_sequential_blocks_witness:
  "removeBlock (join_lines [''a'', ''// @mst remove-block-start'', ''b'',
                            ''// @mst remove-block-end'', ''c'',
                            ''  // @mst remove-block-start'', ''d'', ''e'',
                            ''  // @mst remove-block-end'', ''f''])
        default_block_comment = Some (join_lines [''a'', ''c'', ''f''])"
  using removeBlock_sequential_blocks
    [of default_block_comment
        "[([''a''], ''// @mst remove-block-start'', [''b''], ''// @mst remove-block-end''),
          ([''c''], ''  // @mst remove-block-start'', [''d'', ''e''], ''  // @mst remove-block-end'')]"
        "[''f'']"]
  by (simp add: plain_def default_block_comment_def no_line_feed_def)

subsection \<open>The matcher and the language of a pattern\<close>

lemma run_sound:
  "(s', c') \<in> set (run r st) \<Longrightarrow> \<exists>m. fst st = m @ s' \<and> m \<in> lang r"
proof (induction r st arbitrary: s' c' rule: run.induct)
  case (1 p s c)
  then show ?case by (cases s) (auto split: if_splits)
next
  case (2 st)
  then show ?case by auto
next
  case (3 r1 r2 st)
  from 3(3) obtain s1 c1 where a: "(s1, c1) \<in> set (run r1 st)"
    and b: "(s', c') \<in> set (run r2 (s1, c1))"
    by auto
  from 3(1)[OF a] obtain m1 where m1: "fst st = m1 @ s1" "m1 \<in> lang r1" by blast
  from 3(2)[OF a b] obtain m2 where m2: "s1 = m2 @ s'" "m2 \<in> lang r2" by auto
  from m1 m2 have "fst st = (m1 @ m2) @ s'" "m1 @ m2 \<in> lang (Seq r1 r2)" by auto
  then show ?case by blast
next
  case (4 r1 r2 st)
  from 4(3) have "(s', c') \<in> set (run r1 st) \<or> (s', c') \<in> set (run r2 st)" by simp
  then show ?case
  proof
    assume "(s', c') \<in> set (run r1 st)"
    from 4(1)[OF this] show ?thesis by auto
  next
    assume "(s', c') \<in> set (run r2 st)"
    from 4(2)[OF this] show ?thesis by auto
  qed
next
  case (5 r s c)
  from 5(3) have "(s', c') \<in> set (concat (map (\<lambda>(s', c').
        if length s' < length s then run (Star r) (s', c') else []) (run r (s, c))) @ [(s, c)])"
    by (simp only: run_Star[of r s c])
  then consider (stop) "s' = s" "c' = c"
    | (more) s1 c1 where "(s1, c1) \<in> set (run r (s, c))" "length s1 < length s"
        "(s', c') \<in> set (run (Star r) (s1, c1))"
    by (auto split: if_splits)
  then show ?case
  proof cases
    case stop
    then show ?thesis by (auto intro: star_lang.empty)
  next
    case more
    from 5(1)[OF more(1)] obtain m1 where m1: "s = m1 @ s1" "m1 \<in> lang r" by auto
    from 5(2)[OF more(1) refl more(2) more(3)] obtain m2
      where m2: "s1 = m2 @ s'" "m2 \<in> lang (Star r)" by auto
    from m1 m2 have "s = (m1 @ m2) @ s'" "m1 @ m2 \<in> lang (Star r)"
      by (auto intro: star_lang.round)
    then show ?thesis by auto
  qed
next
  case (6 n r s c)
  from 6(2) obtain c0 where "(s', c0) \<in> set (run r (s, c))" by auto
  from 6(1)[OF this] show ?case by simp
qed

lemma match_here_sound:
  assumes "match_here r s = Some (s', c)"
  shows "\<exists>m. s = m @ s' \<and> m \<in> lang r"
proof -
  from assms have "(s', c) \<in> set (run r (s, Map.empty))"
    by (auto simp: match_here_def split: list.splits)
  from run_sound[OF this] show ?thesis by simp
qed


lemma lang_Lit: "lang (Lit s) = {s}"
  by (induction s) auto






subsection \<open>The sanitizer\<close>







subsection \<open>Matches of the directive pattern\<close>

lemma star_lang_Chars: "m \<in> star_lang {[x] | x. p x} \<Longrightarrow> list_all p m"
  by (induction rule: star_lang.induct) auto

lemma lang_Star_Chars: "m \<in> lang (Star (Chars p)) \<Longrightarrow> list_all p m"
  using star_lang_Chars[of m p] by simp

lemma lang_SeqE:
  assumes "m \<in> lang (Seq r1 r2)"
  obtains u v where "m = u @ v" "u \<in> lang r1" "v \<in> lang r2"
  using assms by auto

lemma lang_Seq_Lit:
  assumes "m \<in> lang (Seq (Lit c) r)"
  obtains v where "m = c @ v" "v \<in> lang r"
  using assms by (auto simp: lang_Lit)

lemma lang_line_form:
  assumes "m \<in> lang (Seq (Group 1 (Alt (Lit ''//'') (Lit ''#'')))
              (Seq (Star (Chars white_space)) (Seq (Lit ''@mst'') (Star (Chars any_char)))))"
  shows "\<exists>opener w d. m = opener @ w @ ''@mst'' @ d \<and> (opener = ''//'' \<or> opener = ''#'')
           \<and> list_all white_space w \<and> list_all any_char d"
proof -
  from assms obtain opener m1 where 1: "m = opener @ m1"
    "opener \<in> lang (Group 1 (Alt (Lit ''//'') (Lit ''#'')))"
    "m1 \<in> lang (Seq (Star (Chars white_space)) (Seq (Lit ''@mst'') (Star (Chars any_char))))"
    by (rule lang_SeqE)
  from 1(3) obtain w m2 where 2: "m1 = w @ m2" "w \<in> lang (Star (Chars white_space))"
    "m2 \<in> lang (Seq (Lit ''@mst'') (Star (Chars any_char)))"
    by (rule lang_SeqE)
  from 2(3) obtain d where 3: "m2 = ''@mst'' @ d" "d \<in> lang (Star (Chars any_char))"
    by (rule lang_Seq_Lit)
  from 1(2) have "opener = ''//'' \<or> opener = ''#''" by (auto simp: lang_Lit)
  moreover from 1(1) 2(1) 3(1) have "m = opener @ w @ ''@mst'' @ d" by simp
  ultimately show ?thesis
    using lang_Star_Chars[OF 2(2)] lang_Star_Chars[OF 3(2)] by blast
qed

lemma lang_wrapped_form:
  assumes "m \<in> lang (Seq (Opt (Lit ''{'')) (Seq (Lit ''/'') (Seq (Star (Chars any_char))
              (Seq (Lit ''@mst'') (Seq (Star (Chars any_char))
                 (Seq (Lit ''/'') (Opt (Lit ''}''))))))))"
  shows "\<exists>b d1 d2 e. m = b @ ''/'' @ d1 @ ''@mst'' @ d2 @ ''/'' @ e
           \<and> list_all any_char b \<and> list_all any_char d1 \<and> list_all any_char d2"
proof -
  from assms obtain b m1 where 1: "m = b @ m1" "b \<in> lang (Opt (Lit ''{''))"
    "m1 \<in> lang (Seq (Lit ''/'') (Seq (Star (Chars any_char))
              (Seq (Lit ''@mst'') (Seq (Star (Chars any_char))
                 (Seq (Lit ''/'') (Opt (Lit ''}'')))))))"
    by (rule lang_SeqE)
  from 1(3) obtain m2 where 2: "m1 = ''/'' @ m2"
    "m2 \<in> lang (Seq (Star (Chars any_char))
              (Seq (Lit ''@mst'') (Seq (Star (Chars any_char))
                 (Seq (Lit ''/'') (Opt (Lit ''}''))))))"
    by (rule lang_Seq_Lit)
  from 2(2) obtain d1 m3 where 3: "m2 = d1 @ m3" "d1 \<in> lang (Star (Chars any_char))"
    "m3 \<in> lang (Seq (Lit ''@mst'') (Seq (Star (Chars any_char))
                 (Seq (Lit ''/'') (Opt (Lit ''}'')))))"
    by (rule lang_SeqE)
  from 3(3) obtain m4 where 4: "m3 = ''@mst'' @ m4"
    "m4 \<in> lang (Seq (Star (Chars any_char)) (Seq (Lit ''/'') (Opt (Lit ''}''))))"
    by (rule lang_Seq_Lit)
  from 4(2) obtain d2 m5 where 5: "m4 = d2 @ m5" "d2 \<in> lang (Star (Chars any_char))"
    "m5 \<in> lang (Seq (Lit ''/'') (Opt (Lit ''}'')))"
    by (rule lang_SeqE)
  from 5(3) obtain e where 6: "m5 = ''/'' @ e" by (rule lang_Seq_Lit)
  from 1(2) have "b = ''{'' \<or> b = []" by (auto simp: Opt_def lang_Lit)
  then have b: "list_all any_char b" by (auto simp: any_char_def)
  from 1(1) 2(1) 3(1) 4(1) 5(1) 6 have "m = b @ ''/'' @ d1 @ ''@mst'' @ d2 @ ''/'' @ e" by simp
  with b lang_Star_Chars[OF 3(2)] lang_Star_Chars[OF 5(2)] show ?thesis by blast
qed

lemma lang_mst_forms:
  assumes "m \<in> lang mstMarkupRegex"
  shows "(\<exists>opener w d. m = opener @ w @ ''@mst'' @ d \<and> (opener = ''//'' \<or> opener = ''#'')
           \<and> list_all white_space w \<and> list_all any_char d)
       \<or> (\<exists>b d1 d2 e. m = b @ ''/'' @ d1 @ ''@mst'' @ d2 @ ''/'' @ e
           \<and> list_all any_char b \<and> list_all any_char d1 \<and> list_all any_char d2)"
proof -
  from assms consider
      (line) "m \<in> lang (Seq (Group 1 (Alt (Lit ''//'') (Lit ''#'')))
              (Seq (Star (Chars white_space)) (Seq (Lit ''@mst'') (Star (Chars any_char)))))"
    | (wrapped) "m \<in> lang (Seq (Opt (Lit ''{'')) (Seq (Lit ''/'') (Seq (Star (Chars any_char))
              (Seq (Lit ''@mst'') (Seq (Star (Chars any_char))
                 (Seq (Lit ''/'') (Opt (Lit ''}''))))))))"
    unfolding mstMarkupRegex_def seqs.simps lang.simps(4) by blast
  then show ?thesis
  proof cases
    case line
    from lang_line_form[OF this] show ?thesis by blast
  next
    case wrapped
    from lang_wrapped_form[OF this] show ?thesis by blast
  qed
qed

lemma render_split: "render (code, d) = code @ directive_text d"
  by (cases d) auto

lemma join_lines_Cons:
  "join_lines (x # xs) = x @ (case xs of [] \<Rightarrow> [] | _ \<Rightarrow> NL # join_lines xs)"
  by (cases xs) auto

lemma content_Cons:
  "join_lines (map render ((code, d) # later)) = code @ directive_text d @ following later"
  by (cases later) (auto simp: following_def render_split)

lemma following_cases:
  "following later = [] \<or> (\<exists>F. following later = NL # F)"
  by (cases later) (auto simp: following_def)

lemma line_front:
  assumes "z = opener @ w @ ''@mst'' @ v" "list_all white_space w"
  shows "after_blanks_mst (drop (length opener) z)"
proof -
  from assms(2) have "dropWhile white_space (w @ ''@mst'' @ v) = dropWhile white_space (''@mst'' @ v)"
    by (intro dropWhile_append2) (simp add: list_all_iff)
  then show ?thesis using assms(1) by (simp add: after_blanks_mst_def white_space_def)
qed

lemma prefix_straddle:
  assumes "prefix c (t @ T)" "T = [] \<or> hd T \<notin> set c"
  shows "prefix c t"
proof -
  from assms(1) have "prefix c t \<or> (\<exists>us. c = t @ us \<and> prefix us T)"
    by (simp only: prefix_append)
  then show ?thesis
  proof
    assume "prefix c t" then show ?thesis .
  next
    assume "\<exists>us. c = t @ us \<and> prefix us T"
    then obtain us where us: "c = t @ us" "prefix us T" by blast
    show ?thesis
    proof (cases us)
      case Nil
      with us show ?thesis by simp
    next
      case (Cons a us')
      with us(2) obtain T' where "T = a # T'" by (cases T) auto
      with assms(2) us(1) Cons show ?thesis by simp
    qed
  qed
qed

lemma quiet_code:
  assumes "\<not> sublist ''@mst'' (pre @ t)" "\<not> after_blanks_mst T"
      and "T = [] \<or> hd T \<notin> set ''@mst''"
  shows "\<not> after_blanks_mst (t @ T)"
  using assms(1)
proof (induction t arbitrary: pre)
  case Nil
  with assms(2) show ?case by simp
next
  case (Cons c t)
  show ?case
  proof (cases "white_space c")
    case True
    from Cons.prems have "\<not> sublist ''@mst'' ((pre @ [c]) @ t)" by simp
    from Cons.IH[OF this] True show ?thesis by (simp add: after_blanks_mst_def)
  next
    case False
    show ?thesis
    proof
      assume "after_blanks_mst ((c # t) @ T)"
      with False have "prefix ''@mst'' ((c # t) @ T)" by (simp add: after_blanks_mst_def)
      from prefix_straddle[OF this assms(3)] have "prefix ''@mst'' (c # t)" .
      then obtain ss where "c # t = ''@mst'' @ ss" by (auto simp: prefix_def)
      then have "pre @ c # t = pre @ ''@mst'' @ ss" by simp
      then have "sublist ''@mst'' (pre @ c # t)" unfolding sublist_def by blast
      with Cons.prems show False by simp
    qed
  qed
qed

lemma no_mark_then_slash:
  assumes "\<not> sublist c X" "x \<notin> set Y"
  shows "X @ Y \<noteq> u @ c @ d @ x # v"
proof
  define P where "P = u @ c @ d"
  assume "X @ Y = u @ c @ d @ x # v"
  then have "X @ Y = P @ x # v" by (simp add: P_def)
  then have "\<exists>us. (X = P @ us \<and> us @ Y = x # v) \<or> (X @ us = P \<and> Y = us @ x # v)"
    by (simp only: append_eq_append_conv2)
  then obtain us where "X = P @ us \<or> Y = us @ x # v" by blast
  then show False
  proof
    assume "X = P @ us"
    then have "X = u @ c @ (d @ us)" by (simp add: P_def)
    then have "sublist c X" unfolding sublist_def by blast
    with assms(1) show False by simp
  next
    assume "Y = us @ x # v"
    with assms(2) show False by simp
  qed
qed

lemma takeWhile_stops:
  assumes "F = [] \<or> \<not> p (hd F)"
  shows "prefix (takeWhile p (X @ F)) X"
proof (induction X)
  case Nil
  from assms show ?case by (cases F) auto
next
  case (Cons x X)
  then show ?case by simp
qed

lemma run_Lit: "run (Lit u) (u @ v, c) = [(v, c)]"
  by (induction u) auto

lemma star_head:
  assumes "list_all p a" "b = [] \<or> \<not> p (hd b)"
  shows "\<exists>l. run (Star (Chars p)) (a @ b, c) = (b, c) # l"
  using assms(1)
proof (induction a)
  case Nil
  from assms(2) have "run (Chars p) (b, c) = []" by (cases b) auto
  then have "run (Star (Chars p)) (b, c) = [(b, c)]"
    by (simp add: run_Star[of "Chars p" b c])
  then show ?case by simp
next
  case (Cons x a)
  then have px: "p x" and pa: "list_all p a" by simp_all
  from Cons.IH[OF pa] obtain l where l: "run (Star (Chars p)) (a @ b, c) = (b, c) # l" by blast
  from px have "run (Chars p) (x # a @ b, c) = [(a @ b, c)]" by simp
  then have "run (Star (Chars p)) (x # a @ b, c)
      = run (Star (Chars p)) (a @ b, c) @ [(x # a @ b, c)]"
    by (simp add: run_Star[of "Chars p" "x # a @ b" c])
  with l show ?case by simp
qed

lemma run_opener:
  assumes "opener = ''//'' \<or> opener = ''#''"
  shows "\<exists>c'. run (Group 1 (Alt (Lit ''//'') (Lit ''#''))) (opener @ v, c) = [(v, c')]"
  using assms by auto

lemma match_at_directive:
  assumes "opener = ''//'' \<or> opener = ''#''" "list_all white_space w" "list_all any_char rest"
      and "E = [] \<or> \<not> any_char (hd E)"
  shows "\<exists>c. match_here mstMarkupRegex (opener @ w @ ''@mst'' @ rest @ E) = Some (E, c)"
proof -
  let ?D = "Star (Chars any_char)"
  let ?L = "Seq (Lit ''@mst'') ?D"
  let ?W = "Seq (Star (Chars white_space)) ?L"
  let ?G = "Group 1 (Alt (Lit ''//'') (Lit ''#''))"
  from run_opener[OF assms(1)] obtain c1
    where g: "run ?G (opener @ w @ ''@mst'' @ rest @ E, Map.empty) = [(w @ ''@mst'' @ rest @ E, c1)]"
    by blast
  have "\<not> white_space (hd (''@mst'' @ rest @ E))" by (simp add: white_space_def)
  with star_head[OF assms(2), of "''@mst'' @ rest @ E" c1] obtain l1
    where w: "run (Star (Chars white_space)) (w @ ''@mst'' @ rest @ E, c1)
                = (''@mst'' @ rest @ E, c1) # l1"
    by auto
  from star_head[OF assms(3,4), of c1] obtain l2
    where d: "run ?D (rest @ E, c1) = (E, c1) # l2" by blast
  have l: "run ?L (''@mst'' @ rest @ E, c1) = (E, c1) # l2"
    using run_Lit[of "''@mst''" "rest @ E" c1] d by simp
  have "run ?W (w @ ''@mst'' @ rest @ E, c1) = (E, c1) # l2 @ concat (map (run ?L) l1)"
    using w l by simp
  with g have "run (Seq ?G ?W) (opener @ w @ ''@mst'' @ rest @ E, Map.empty)
      = (E, c1) # l2 @ concat (map (run ?L) l1)"
    by simp
  then show ?thesis
    by (simp add: match_here_def mstMarkupRegex_def)
qed

lemma after_blanks_mst_ws: "white_space c \<Longrightarrow> after_blanks_mst (c # y) = after_blanks_mst y"
  by (simp add: after_blanks_mst_def)

lemma after_blanks_mst_other:
  "\<not> white_space c \<Longrightarrow> c \<noteq> CHR ''@'' \<Longrightarrow> \<not> after_blanks_mst (c # y)"
  by (simp add: after_blanks_mst_def)

lemma directive_facts:
  assumes "line_comment_directive (code, d)"
  shows "NL \<notin> set code" "\<not> sublist ''@mst'' code"
    and "d = None \<or> (\<exists>opener w rest. d = Some (opener, w, rest)
           \<and> (opener = ''//'' \<or> opener = ''#'')
           \<and> list_all inline_blank w \<and> list_all any_char rest \<and> CHR ''/'' \<notin> set rest)"
  using assms by (cases d; auto simp: str_includes_iff)+

lemma quiet_tail:
  assumes "line_comment_directive (code, d)" "\<not> after_blanks_mst (following later)"
  shows "\<not> after_blanks_mst (directive_text d @ following later)"
    and "directive_text d @ following later = []
         \<or> hd (directive_text d @ following later) \<notin> set ''@mst''"
proof -
  from directive_facts(3)[OF assms(1)] consider "d = None"
    | opener w rest where "d = Some (opener, w, rest)" "opener = ''//'' \<or> opener = ''#''"
    by blast
  then have "\<not> after_blanks_mst (directive_text d @ following later)
     \<and> (directive_text d @ following later = []
         \<or> hd (directive_text d @ following later) \<notin> set ''@mst'')"
  proof cases
    case 1
    with assms(2) following_cases[of later] show ?thesis by auto
  next
    case 2
    then show ?thesis
      by (auto simp: after_blanks_mst_def white_space_def)
  qed
  then show "\<not> after_blanks_mst (directive_text d @ following later)"
    and "directive_text d @ following later = []
         \<or> hd (directive_text d @ following later) \<notin> set ''@mst''"
    by blast+
qed

lemma quiet_following:
  "list_all line_comment_directive later \<Longrightarrow> \<not> after_blanks_mst (following later)"
proof (induction later)
  case Nil
  then show ?case by (simp add: following_def after_blanks_mst_def)
next
  case (Cons l later)
  obtain code d where l: "l = (code, d)" by (cases l)
  from Cons.prems l have wf: "line_comment_directive (code, d)"
    and rest: "list_all line_comment_directive later" by simp_all
  note q = quiet_tail[OF wf Cons.IH[OF rest]]
  from directive_facts(2)[OF wf] have "\<not> sublist ''@mst'' ([] @ code)" by simp
  from quiet_code[OF this q] have "\<not> after_blanks_mst (code @ directive_text d @ following later)" .
  note e = content_Cons[of code d later]
  have ws: "after_blanks_mst (NL # X) = after_blanks_mst X" for X
    by (rule after_blanks_mst_ws) (simp add: white_space_def)
  from \<open>\<not> after_blanks_mst (code @ directive_text d @ following later)\<close>
  have n: "\<not> after_blanks_mst (NL # join_lines (map render ((code, d) # later)))"
    unfolding e ws .
  have f: "following ((code, d) # later) = NL # join_lines (map render ((code, d) # later))"
    by (simp add: following_def)
  show ?case unfolding l f by (rule n)
qed

lemma no_line_front:
  assumes wf: "line_comment_directive (pre @ t, d)" and later: "list_all line_comment_directive later"
      and t: "t \<noteq> []"
      and front: "t @ directive_text d @ following later = opener @ w @ ''@mst'' @ v"
      and o: "opener = ''//'' \<or> opener = ''#''" and w: "list_all white_space w"
  shows False
proof -
  let ?T = "directive_text d @ following later"
  note q = quiet_tail[OF wf quiet_following[OF later]]
  from line_front[OF front w] have a: "after_blanks_mst (drop (length opener) (t @ ?T))" .
  from directive_facts(2)[OF wf] have nm: "\<not> sublist ''@mst'' (pre @ t)" .
  obtain c0 t0 where t0: "t = c0 # t0" using t by (cases t) auto
  from o show False
  proof
    assume h: "opener = ''#''"
    with front t0 have "c0 = CHR ''#''" by simp
    from nm t0 have "\<not> sublist ''@mst'' ((pre @ [c0]) @ t0)" by simp
    from quiet_code[OF this q] a h t0 show False by simp
  next
    assume s: "opener = ''//''"
    show False
    proof (cases t0)
      case Nil
      with front t0 s obtain T' where T': "?T = CHR ''/'' # T'" by (cases ?T) auto
      from directive_facts(3)[OF wf] T' following_cases[of later]
      obtain w2 rest2 where "d = Some (''//'', w2, rest2)"
        by (cases d) auto
      with T' have "T' = CHR ''/'' # w2 @ ''@mst'' @ rest2 @ following later" by simp
      then have "\<not> after_blanks_mst T'" by (simp add: after_blanks_mst_def white_space_def)
      with a s t0 Nil T' show False by simp
    next
      case (Cons c1 t1)
      from nm t0 Cons have "\<not> sublist ''@mst'' ((pre @ [c0, c1]) @ t1)" by simp
      from quiet_code[OF this q] a s t0 Cons show False by simp
    qed
  qed
qed

lemma no_wrapped_front:
  assumes wf: "line_comment_directive (pre @ t, d)"
      and front: "t @ directive_text d @ following later
                    = b @ ''/'' @ d1 @ ''@mst'' @ d2 @ ''/'' @ v"
      and any: "list_all any_char b" "list_all any_char d1" "list_all any_char d2"
  shows False
proof -
  let ?P = "b @ ''/'' @ d1 @ ''@mst'' @ d2 @ ''/''"
  let ?X = "t @ directive_text d"
  have "any_char (CHR ''/'')" "list_all any_char ''@mst''" by (simp_all add: any_char_def)
  with any have "list_all any_char ?P" by simp
  then have "\<And>x. x \<in> set ?P \<Longrightarrow> any_char x"
    by (simp only: list_all_iff)
  then have "takeWhile any_char (?P @ v) = ?P @ takeWhile any_char v"
    by (rule takeWhile_append2)
  with front have tw: "takeWhile any_char (?X @ following later) = ?P @ takeWhile any_char v"
    by simp
  from following_cases[of later] have "following later = [] \<or> \<not> any_char (hd (following later))"
    by (auto simp: any_char_def)
  from takeWhile_stops[of "following later" any_char ?X, OF this] have "prefix (takeWhile any_char (?X @ following later)) ?X" .
  then have "prefix (?P @ takeWhile any_char v) ?X" by (simp only: tw)
  then obtain r where "?X = (?P @ takeWhile any_char v) @ r" unfolding prefix_def by blast
  define U where "U = b @ ''/'' @ d1"
  define V where "V = takeWhile any_char v @ r"
  from \<open>?X = (?P @ takeWhile any_char v) @ r\<close>
  have X: "?X = U @ ''@mst'' @ d2 @ CHR ''/'' # V"
    by (simp add: U_def V_def)
  from directive_facts(2)[OF wf] have npt: "\<not> sublist ''@mst'' (pre @ t)" .
  have nt: "\<not> sublist ''@mst'' t"
  proof
    assume "sublist ''@mst'' t"
    then obtain ps ss where "t = ps @ ''@mst'' @ ss" by (auto simp: sublist_def)
    then have "pre @ t = (pre @ ps) @ ''@mst'' @ ss" by simp
    then have "sublist ''@mst'' (pre @ t)" unfolding sublist_def by blast
    with npt show False by simp
  qed
  from directive_facts(3)[OF wf] show False
  proof
    assume "d = None"
    then have "t @ [] = ?X" by simp
    also note X
    finally have "t @ [] = U @ ''@mst'' @ d2 @ CHR ''/'' # V" .
    moreover have "CHR ''/'' \<notin> set ([] :: string)" by simp
    ultimately show False using no_mark_then_slash[OF nt, of "CHR ''/''" "[]" U d2 V] by blast
  next
    assume "\<exists>opener w rest. d = Some (opener, w, rest) \<and> (opener = ''//'' \<or> opener = ''#'')
           \<and> list_all inline_blank w \<and> list_all any_char rest \<and> CHR ''/'' \<notin> set rest"
    then obtain opener w rest where d: "d = Some (opener, w, rest)"
      and o: "opener = ''//'' \<or> opener = ''#''"
      and w: "list_all inline_blank w" and rest: "CHR ''/'' \<notin> set rest" by blast
    have e: "\<not> sublist ''@mst'' []" "\<not> sublist ''@mst'' ''/''"
      unfolding str_includes_iff[symmetric] by simp_all
    have h: "CHR ''#'' \<notin> set ''@mst''" "CHR ''/'' \<notin> set ''@mst''" by simp_all
    have no: "\<not> sublist ''@mst'' (t @ opener)"
    proof
      assume a: "sublist ''@mst'' (t @ opener)"
      from o show False
      proof
        assume "opener = ''#''"
        with a have "sublist ''@mst'' (t @ CHR ''#'' # [])" by simp
        from sublist_across[OF h(1) this] nt e show False by blast
      next
        assume "opener = ''//''"
        with a have "sublist ''@mst'' (t @ CHR ''/'' # ''/'')" by simp
        from sublist_across[OF h(2) this] nt e show False by blast
      qed
    qed
    from w have "\<forall>c \<in> set w. white_space c"
      by (simp add: list_all_iff inline_blank_def)
    moreover have "\<not> white_space (CHR ''/'')" by (simp add: white_space_def)
    ultimately have "CHR ''/'' \<notin> set w" by blast
    with rest have ny: "CHR ''/'' \<notin> set (w @ ''@mst'' @ rest)" by simp
    from d have "(t @ opener) @ (w @ ''@mst'' @ rest) = ?X" by simp
    also note X
    finally have "(t @ opener) @ (w @ ''@mst'' @ rest) = U @ ''@mst'' @ d2 @ CHR ''/'' # V" .
    with no_mark_then_slash[OF no ny, of U d2 V] show False by blast
  qed
qed

subsection \<open>The sanitizer on lines with line-comment directives\<close>

lemma no_match_in_code:
  assumes wf: "line_comment_directive (pre @ t, d)"
      and later: "list_all line_comment_directive later" and t: "t \<noteq> []"
  shows "match_here mstMarkupRegex (t @ directive_text d @ following later) = None"
proof (rule ccontr)
  let ?z = "t @ directive_text d @ following later"
  assume "match_here mstMarkupRegex ?z \<noteq> None"
  then obtain s' c where "match_here mstMarkupRegex ?z = Some (s', c)" by auto
  from match_here_sound[OF this] obtain m where z: "?z = m @ s'" and m: "m \<in> lang mstMarkupRegex"
    by blast
  from lang_mst_forms[OF m] show False
  proof
    assume "\<exists>opener w d. m = opener @ w @ ''@mst'' @ d \<and> (opener = ''//'' \<or> opener = ''#'')
           \<and> list_all white_space w \<and> list_all any_char d"
    then obtain opener w dd where "m = opener @ w @ ''@mst'' @ dd"
      and o: "opener = ''//'' \<or> opener = ''#''" and w: "list_all white_space w" by blast
    with z have "?z = opener @ w @ ''@mst'' @ (dd @ s')" by simp
    from no_line_front[OF wf later t this o w] show False .
  next
    assume "\<exists>b d1 d2 e. m = b @ ''/'' @ d1 @ ''@mst'' @ d2 @ ''/'' @ e
           \<and> list_all any_char b \<and> list_all any_char d1 \<and> list_all any_char d2"
    then obtain b d1 d2 e where "m = b @ ''/'' @ d1 @ ''@mst'' @ d2 @ ''/'' @ e"
      and any: "list_all any_char b" "list_all any_char d1" "list_all any_char d2" by blast
    with z have "?z = b @ ''/'' @ d1 @ ''@mst'' @ d2 @ ''/'' @ (e @ s')" by simp
    from no_wrapped_front[OF wf this any] show False .
  qed
qed

lemma no_match_at_line_end:
  assumes "z = [] \<or> hd z = NL"
  shows "match_here mstMarkupRegex z = None"
proof (rule ccontr)
  assume "match_here mstMarkupRegex z \<noteq> None"
  then obtain s' c where "match_here mstMarkupRegex z = Some (s', c)" by auto
  from match_here_sound[OF this] obtain m where z: "z = m @ s'" and m: "m \<in> lang mstMarkupRegex"
    by blast
  from lang_mst_forms[OF m] have "m \<noteq> [] \<and> hd m \<noteq> NL"
  proof
    assume "\<exists>opener w d. m = opener @ w @ ''@mst'' @ d \<and> (opener = ''//'' \<or> opener = ''#'')
           \<and> list_all white_space w \<and> list_all any_char d"
    then show ?thesis by auto
  next
    assume "\<exists>b d1 d2 e. m = b @ ''/'' @ d1 @ ''@mst'' @ d2 @ ''/'' @ e
           \<and> list_all any_char b \<and> list_all any_char d1 \<and> list_all any_char d2"
    then obtain b d1 d2 e where mm: "m = b @ ''/'' @ d1 @ ''@mst'' @ d2 @ ''/'' @ e"
      and b: "list_all any_char b" by blast
    show ?thesis
    proof (cases b)
      case Nil
      with mm show ?thesis by simp
    next
      case (Cons x b')
      with b have "x \<noteq> NL" by (simp add: any_char_def)
      with mm Cons show ?thesis by simp
    qed
  qed
  with z assms show False by (cases m) auto
qed

lemma sanitize_Nil: "sanitize [] = []"
  using no_match_at_line_end[of "[]"]
  by (simp add: sanitize_def replace_all.simps[of _ _ "[]"])

lemma sanitize_keep:
  "match_here mstMarkupRegex (x # z) = None \<Longrightarrow> sanitize (x # z) = x # sanitize z"
  by (simp add: sanitize_def replace_all.simps[of _ _ "x # z"])

lemma sanitize_cut:
  "match_here mstMarkupRegex z = Some (E, c) \<Longrightarrow> length E < length z
     \<Longrightarrow> sanitize z = sanitize E"
  by (simp add: sanitize_def replace_all.simps[of _ _ z])

lemma scan_code:
  assumes "line_comment_directive (pre @ t, d)" "list_all line_comment_directive later"
  shows "sanitize (t @ directive_text d @ following later)
           = t @ sanitize (directive_text d @ following later)"
  using assms(1)
proof (induction t arbitrary: pre)
  case Nil
  show ?case by simp
next
  case (Cons x t)
  from Cons.prems have wf': "line_comment_directive ((pre @ [x]) @ t, d)" by simp
  from no_match_in_code[OF Cons.prems assms(2)]
  have "match_here mstMarkupRegex (x # t @ directive_text d @ following later) = None" by simp
  from sanitize_keep[OF this] Cons.IH[OF wf'] show ?case by simp
qed

lemma scan_directive:
  assumes "line_comment_directive (code, d)"
  shows "sanitize (directive_text d @ following later) = sanitize (following later)"
proof -
  from directive_facts(3)[OF assms] show ?thesis
  proof
    assume "d = None" then show ?thesis by simp
  next
    assume "\<exists>opener w rest. d = Some (opener, w, rest) \<and> (opener = ''//'' \<or> opener = ''#'')
           \<and> list_all inline_blank w \<and> list_all any_char rest \<and> CHR ''/'' \<notin> set rest"
    then obtain opener w rest where d: "d = Some (opener, w, rest)"
      and o: "opener = ''//'' \<or> opener = ''#''"
      and w: "list_all inline_blank w" and rest: "list_all any_char rest" by blast
    from w have w': "list_all white_space w" by (simp add: list_all_iff inline_blank_def)
    from following_cases[of later]
    have E: "following later = [] \<or> \<not> any_char (hd (following later))"
      by (auto simp: any_char_def)
    from match_at_directive[OF o w' rest E] obtain c
      where m: "match_here mstMarkupRegex (opener @ w @ ''@mst'' @ rest @ following later)
                  = Some (following later, c)" by blast
    have "length (following later) < length (opener @ w @ ''@mst'' @ rest @ following later)"
      by simp
    from sanitize_cut[OF m this] d show ?thesis by simp
  qed
qed

lemma scan_following:
  "sanitize (following later)
     = (case later of [] \<Rightarrow> [] | _ \<Rightarrow> NL # sanitize (join_lines (map render later)))"
proof (cases later)
  case Nil
  then show ?thesis by (simp add: following_def sanitize_Nil)
next
  case (Cons l ls)
  have "match_here mstMarkupRegex (NL # join_lines (map render later)) = None"
    by (rule no_match_at_line_end) simp
  from sanitize_keep[OF this] Cons show ?thesis by (simp add: following_def)
qed

lemma sanitize_line_comments:
  "list_all line_comment_directive ls
     \<Longrightarrow> sanitize (join_lines (map render ls)) = join_lines (map fst ls)"
proof (induction ls)
  case Nil
  then show ?case by (simp add: sanitize_Nil)
next
  case (Cons l later)
  obtain code d where l: "l = (code, d)" by (cases l)
  from Cons.prems l have wf: "line_comment_directive ([] @ code, d)"
    and rest: "list_all line_comment_directive later" by simp_all
  from wf have wf': "line_comment_directive (code, d)" by simp
  have "sanitize (join_lines (map render ((code, d) # later)))
      = sanitize (code @ directive_text d @ following later)"
    by (simp only: content_Cons)
  also have "\<dots> = code @ sanitize (directive_text d @ following later)"
    by (rule scan_code[OF wf rest])
  also have "\<dots> = code @ sanitize (following later)"
    by (simp only: scan_directive[OF wf'])
  also have "\<dots> = code @ (case later of [] \<Rightarrow> [] | _ \<Rightarrow> NL # join_lines (map fst later))"
    unfolding scan_following Cons.IH[OF rest] ..
  also have "\<dots> = join_lines (map fst ((code, d) # later))"
    by (cases later) simp_all
  finally show ?case by (simp only: l)
qed


lemma code_only_line:
  "line_comment_directive l \<Longrightarrow> line_comment_directive (fst l, None)"
  by (induction l rule: line_comment_directive.induct) simp_all

lemma code_only_lines:
  "list_all line_comment_directive ls
     \<Longrightarrow> list_all line_comment_directive (map (\<lambda>l. (fst l, None)) ls)"
proof (induction ls)
  case Nil
  then show ?case by simp
next
  case (Cons l ls)
  then have "line_comment_directive (fst l, None)"
    "list_all line_comment_directive (map (\<lambda>l. (fst l, None)) ls)"
    using code_only_line[of l] by simp_all
  then show ?case by (simp del: line_comment_directive.simps)
qed

lemma sanitize_line_comments_fixed:
  assumes "list_all line_comment_directive ls"
  shows "sanitize (join_lines (map fst ls)) = join_lines (map fst ls)"
proof -
  have "map render (map (\<lambda>l. (fst l, None)) ls) = map fst ls" by simp
  with sanitize_line_comments[OF code_only_lines[OF assms]] show ?thesis by (simp add: comp_def)
qed


subsection \<open>The matcher finds every match; the scan from left to right\<close>






subsection \<open>Idempotence and the contract of the sanitizer\<close>

text \<open>
  Claim C4, as amended. On every content whose lines are each code without \<^verbatim>\<open>@mst\<close>,
  optionally followed by one line-comment directive (\<^verbatim>\<open>//\<close> or \<^verbatim>\<open>#\<close>, blanks within the
  line, \<^verbatim>\<open>@mst\<close>, and text up to the end of the line that holds no \<^verbatim>\<open>/\<close>), sanitizing
  the sanitized content gives the sanitized content again, which is the code of each
  line.
\<close>

theorem sanitize_idempotent_on_line_comments:
  "list_all line_comment_directive ls
     \<Longrightarrow> sanitize (sanitize (join_lines (map render ls))) = sanitize (join_lines (map render ls))
         \<and> sanitize (join_lines (map render ls)) = join_lines (map fst ls)"
  by (simp add: sanitize_line_comments sanitize_line_comments_fixed)

theorem sanitize_idempotent_on_line_comments_witness:
  "sanitize (sanitize (join_lines
       [''</View> // @mst remove-current-line'', ''# @mst remove-file'', ''const a = 1'']))
   = sanitize (join_lines
       [''</View> // @mst remove-current-line'', ''# @mst remove-file'', ''const a = 1''])
   \<and> sanitize (join_lines
       [''</View> // @mst remove-current-line'', ''# @mst remove-file'', ''const a = 1''])
     = join_lines [''</View> '', [], ''const a = 1'']"
proof -
  let ?ls = "[(''</View> '', Some (''//'', '' '', '' remove-current-line'')),
              ([], Some (''#'', '' '', '' remove-file'')),
              (''const a = 1'', None)]"
  have wf: "list_all line_comment_directive ?ls"
    by (simp add: inline_blank_def white_space_def any_char_def)
  have r: "join_lines (map render ?ls)
      = join_lines [''</View> // @mst remove-current-line'', ''# @mst remove-file'',
                    ''const a = 1'']"
    by simp
  have f: "join_lines (map fst ?ls) = join_lines [''</View> '', [], ''const a = 1'']"
    by simp
  from sanitize_idempotent_on_line_comments[OF wf] show ?thesis unfolding r f .
qed

text \<open>
  Claim C4 as stated fails, on one line: deleting the match \<^verbatim>\<open>/ @mst /\<close> brings \<^verbatim>\<open>#\<close>
  next to the second \<^verbatim>\<open>@mst\<close>, which a second pass deletes.
\<close>

theorem sanitize_not_idempotent:
  "sanitize (sanitize ''#/ @mst /@mst x'') \<noteq> sanitize ''#/ @mst /@mst x''"
  by code_simp




subsection \<open>The observer-block rewrite\<close>

text \<open>
  Claim C3 as stated fails: the annotation \<^verbatim>\<open>React.FC<Props>\<close> has a dot, which the
  annotation part of the start pattern does not admit, so nothing matches and the
  content is returned as it is.
\<close>

theorem observer_block_dotted_annotation_unchanged:
  "patchMSTObserverBlock (join_lines
     [''// @mst observer-block-start'',
      ''export const Foo: React.FC<Props> = observer(function Foo(props) {'',
      ''  return null'',
      ''}) // @mst observer-block-end''])
   = Some (join_lines
     [''// @mst observer-block-start'',
      ''export const Foo: React.FC<Props> = observer(function Foo(props) {'',
      ''  return null'',
      ''}) // @mst observer-block-end''])"
  by code_simp

text \<open>
  Claim C3, as amended. With the annotation \<^verbatim>\<open>FC<Props>\<close> the declaration becomes
  \<^verbatim>\<open>export const Foo: FC<Props>  = (props) => {\<close>, with two blanks before \<^verbatim>\<open>=\<close> since the
  annotation is captured with the blank after it; with no annotation it becomes
  \<^verbatim>\<open>export const Foo = (props) => {\<close>. In both the marker line is gone and the
  closing line is a bare \<^verbatim>\<open>}\<close>. With the annotation \<^verbatim>\<open>React.FC<Props>\<close> the content
  is returned as it is.
\<close>

theorem observer_block_rewrite:
  "patchMSTObserverBlock (join_lines
     [''// @mst observer-block-start'',
      ''export const Foo: FC<Props> = observer(function Foo(props) {'',
      ''  return null'',
      ''}) // @mst observer-block-end''])
   = Some (join_lines
     [''export const Foo: FC<Props>  = (props) => {'',
      ''  return null'',
      ''}''])
   \<and> patchMSTObserverBlock (join_lines
     [''// @mst observer-block-start'',
      ''export const Foo = observer(function Foo(props) {'',
      ''  return null'',
      ''}) // @mst observer-block-end''])
   = Some (join_lines
     [''export const Foo = (props) => {'',
      ''  return null'',
      ''}''])
   \<and> patchMSTObserverBlock (join_lines
     [''// @mst observer-block-start'',
      ''export const Foo: React.FC<Props> = observer(function Foo(props) {'',
      ''  return null'',
      ''}) // @mst observer-block-end''])
   = Some (join_lines
     [''// @mst observer-block-start'',
      ''export const Foo: React.FC<Props> = observer(function Foo(props) {'',
      ''  return null'',
      ''}) // @mst observer-block-end''])"
  by code_simp

subsection \<open>Remove-block on misplaced markers\<close>

lemma removeBlock_unmatched_inert:
  assumes "findIndex (split_lines c) (start cm) = - 1 \<or> findIndex (split_lines c) (finish cm) = - 1"
  shows "removeBlock c cm = Some c"
  using assms by (intro removeBlock_no_pair) auto

text \<open>
  Claim C1 says that \<^verbatim>\<open>removeBlock\<close> terminates on every content, also when an end marker
  line precedes the start marker line. On the two lines end marker, start marker it does
  not: the delete count is zero, nothing is removed, both markers are still there, and
  the function calls itself on the same content without end.
\<close>

theorem removeBlock_end_before_start_never_returns:
  "removeBlock (join_lines [''// @mst remove-block-end'', ''// @mst remove-block-start''])
     default_block_comment = None"
  by (rule removeBlock_diverges) (simp_all add: default_block_comment_def)

text \<open>
  Claim C2 says that a start marker found after its end marker is inert and the content
  is returned unchanged. On such content \<^verbatim>\<open>removeBlock\<close> returns nothing at all.
\<close>

theorem removeBlock_start_after_end_not_inert:
  "removeBlock (join_lines [''a'', ''// @mst remove-block-end'', ''b'',
                            ''// @mst remove-block-start'', ''c''])
     default_block_comment = None"
  by (rule removeBlock_diverges) (simp_all add: default_block_comment_def)

subsection \<open>The batch update\<close>

text \<open>
  Claim C10. Whatever \<^verbatim>\<open>updateFiles\<close> and the functions of the toolbox are, \<^verbatim>\<open>update\<close>
  returns the value of the call of \<^verbatim>\<open>updateFiles\<close> and leaves the state as that call left
  it: the statements after the \<^verbatim>\<open>return\<close>, with the per-file loop that would call
  \<^verbatim>\<open>sanitize\<close> and \<^verbatim>\<open>remove\<close>, take no part.
\<close>

theorem update_returns_updateFiles:
  "update tb uf paths dry only_markup fs =
     (Returned (Inl (fst (uf \<lparr>filePaths = paths,
                               markupRegex = mstMarkupRegex,
                               commentTypes =
                                 \<lparr>ct_REMOVE_CURRENT_LINE = marker REMOVE_CURRENT_LINE,
                                  ct_REMOVE_NEXT_LINE = marker REMOVE_NEXT_LINE,
                                  ct_REMOVE_BLOCK_START = marker REMOVE_BLOCK_START,
                                  ct_REMOVE_BLOCK_END = marker REMOVE_BLOCK_END,
                                  ct_REMOVE_FILE = marker REMOVE_FILE\<rparr>,
                               dryRun = dry,
                               onlyMarkup = only_markup\<rparr> fs))),
      snd (uf \<lparr>filePaths = paths,
                 markupRegex = mstMarkupRegex,
                 commentTypes =
                   \<lparr>ct_REMOVE_CURRENT_LINE = marker REMOVE_CURRENT_LINE,
                    ct_REMOVE_NEXT_LINE = marker REMOVE_NEXT_LINE,
                    ct_REMOVE_BLOCK_START = marker REMOVE_BLOCK_START,
                    ct_REMOVE_BLOCK_END = marker REMOVE_BLOCK_END,
                    ct_REMOVE_FILE = marker REMOVE_FILE\<rparr>,
                 dryRun = dry,
                 onlyMarkup = only_markup\<rparr> fs))"
  by (simp add: update_def then_stmt_def split: prod.splits)

lemma updateFile_frame: "q \<noteq> p \<Longrightarrow> snd (updateFile args p fs) q = fs q"
  by (auto simp: updateFile_def Let_def split: option.splits)

lemma updateFile_local:
  "fs p = fs' p \<Longrightarrow>
     fst (updateFile args p fs) = fst (updateFile args p fs')
     \<and> snd (updateFile args p fs) p = snd (updateFile args p fs') p"
  by (auto simp: updateFile_def Let_def split: option.splits)

lemma allSettled_updateFile:
  "distinct ps \<Longrightarrow>
     fst (allSettled (updateFile args) ps fs) = map (\<lambda>p. fst (updateFile args p fs)) ps
     \<and> (\<forall>q. snd (allSettled (updateFile args) ps fs) q
              = (if q \<in> set ps then snd (updateFile args q fs) q else fs q))"
proof (induction ps arbitrary: fs)
  case Nil
  then show ?case by simp
next
  case (Cons p ps)
  obtain r fs1 where t: "updateFile args p fs = (r, fs1)" by (cases "updateFile args p fs")
  from Cons.prems have d: "distinct ps" and np: "p \<notin> set ps" by simp_all
  have same: "fs1 q = fs q" if "q \<noteq> p" for q
    using updateFile_frame[OF that, of args fs] t by simp
  note IH = Cons.IH[OF d, of fs1]
  have a: "map (\<lambda>q. fst (updateFile args q fs1)) ps = map (\<lambda>q. fst (updateFile args q fs)) ps"
  proof (rule map_cong[OF refl])
    fix q assume "q \<in> set ps"
    with np have "q \<noteq> p" by auto
    from updateFile_local[of fs1 q fs args] same[OF this] show
      "fst (updateFile args q fs1) = fst (updateFile args q fs)" by simp
  qed
  have b: "snd (allSettled (updateFile args) ps fs1) q
      = (if q \<in> set (p # ps) then snd (updateFile args q fs) q else fs q)" for q
  proof (cases "q = p")
    case True
    with np IH t show ?thesis by simp
  next
    case False
    from updateFile_local[of fs1 q fs args] same[OF False] IH False
    show ?thesis by simp
  qed
  obtain rs fs2 where rest: "allSettled (updateFile args) ps fs1 = (rs, fs2)"
    by (cases "allSettled (updateFile args) ps fs1")
  from t rest have whole: "allSettled (updateFile args) (p # ps) fs = (r # rs, fs2)" by simp
  from IH rest a have "rs = map (\<lambda>q. fst (updateFile args q fs)) ps" by simp
  with t have 1: "r # rs = map (\<lambda>q. fst (updateFile args q fs)) (p # ps)" by simp
  from b rest have 2: "fs2 q = (if q \<in> set (p # ps) then snd (updateFile args q fs) q else fs q)"
    for q by simp
  from 1 2 show ?case unfolding whole by simp
qed

text \<open>
  Claim C8, against \<^verbatim>\<open>updateFiles\<close> as modelled from the specification. For a file among
  the (distinct) paths whose content holds the \<^verbatim>\<open>@mst remove-file\<close> marker, \<^verbatim>\<open>update\<close>
  reports exactly the remove-file directive; when changes are applied the file is
  deleted in remove mode and holds exactly its sanitized content in sanitize mode (no
  line or block rewriter has run on it); a dry run leaves it as it was.
\<close>

theorem remove_file_takes_precedence:
  assumes "fs path = Some contents"
      and "str_includes contents (marker REMOVE_FILE)"
      and "distinct paths"
      and "i < length paths"
      and "paths ! i = path"
  shows "\<exists>results fs'.
           update tb updateFiles paths dry only_markup fs = (Returned (Inl results), fs')
           \<and> length results = length paths
           \<and> results ! i = Fulfilled (path, [marker REMOVE_FILE])
           \<and> fs' path = (if dry then Some contents
                          else if only_markup then Some (sanitize contents)
                          else None)"
proof -
  let ?args = "\<lparr>filePaths = paths,
                 markupRegex = mstMarkupRegex,
                 commentTypes =
                   \<lparr>ct_REMOVE_CURRENT_LINE = marker REMOVE_CURRENT_LINE,
                    ct_REMOVE_NEXT_LINE = marker REMOVE_NEXT_LINE,
                    ct_REMOVE_BLOCK_START = marker REMOVE_BLOCK_START,
                    ct_REMOVE_BLOCK_END = marker REMOVE_BLOCK_END,
                    ct_REMOVE_FILE = marker REMOVE_FILE\<rparr>,
                 dryRun = dry,
                 onlyMarkup = only_markup\<rparr>"
  obtain results fs' where run: "allSettled (updateFile ?args) paths fs = (results, fs')"
    by (cases "allSettled (updateFile ?args) paths fs")
  then have u: "update tb updateFiles paths dry only_markup fs = (Returned (Inl results), fs')"
    by (simp add: update_def then_stmt_def updateFiles_def)
  from assms(4,5) have mem: "path \<in> set paths" by auto
  have one: "updateFile ?args path fs =
      (Fulfilled (path, [marker REMOVE_FILE]),
       if dry then fs
       else if only_markup then fs(path \<mapsto> sanitize contents)
       else fs(path := None))"
    using assms(1,2) by (simp add: updateFile_def sanitize_def Let_def)
  from allSettled_updateFile[OF assms(3), of ?args fs] run
  have r: "results = map (\<lambda>p. fst (updateFile ?args p fs)) paths"
    and f: "fs' path = snd (updateFile ?args path fs) path"
    using mem by simp_all
  from r assms(4,5) one have "results ! i = Fulfilled (path, [marker REMOVE_FILE])" by simp
  moreover from r have "length results = length paths" by simp
  moreover from f one assms(1) have "fs' path = (if dry then Some contents
                          else if only_markup then Some (sanitize contents)
                          else None)" by simp
  ultimately show ?thesis using u by blast
qed

theorem remove_file_takes_precedence_witness:
  "\<forall>tb. \<exists>results fs'.
      update tb updateFiles [''a.tsx'', ''b.tsx''] False False
        [''a.tsx'' \<mapsto> join_lines [''x // @mst remove-current-line'', ''y''],
         ''b.tsx'' \<mapsto> join_lines [''// @mst remove-file'', ''z // @mst remove-current-line'']]
        = (Returned (Inl results), fs')
      \<and> length results = Suc (Suc 0)
      \<and> results ! Suc 0 = Fulfilled (''b.tsx'', [''@mst remove-file''])
      \<and> fs' ''b.tsx'' = None"
  using remove_file_takes_precedence
    [of "[''a.tsx'' \<mapsto> join_lines [''x // @mst remove-current-line'', ''y''],
          ''b.tsx'' \<mapsto> join_lines [''// @mst remove-file'', ''z // @mst remove-current-line'']]"
        "''b.tsx''"
        "join_lines [''// @mst remove-file'', ''z // @mst remove-current-line'']"
        "[''a.tsx'', ''b.tsx'']" "Suc 0" _ False False]
  by simp

end
